theory Spec2Isabelle
  imports Main "HOL-Library.Sublist"
begin

section \<open>Board model\<close>

text \<open>
  A board cell holds one of the three JavaScript strings \<^verbatim>\<open>''\<close>, \<^verbatim>\<open>'X'\<close> and
  \<^verbatim>\<open>'O'\<close>; no other value is ever stored in a board. A board is an array of
  \<^verbatim>\<open>SIZE\<close> rows, each an array of \<^verbatim>\<open>SIZE\<close> cells (line 17, \<^verbatim>\<open>copyBoard\<close>).
\<close>

datatype cell = Empty | MarkX | MarkO

type_synonym board = "cell list list"

definition SIZE :: nat where
  "SIZE = 3"

definition wf_board :: "board \<Rightarrow> bool" where
  "wf_board b = (length b = SIZE \<and> list_all (\<lambda>row. length row = SIZE) b)"

text \<open>
  The read \<^verbatim>\<open>board[i][j]\<close>. Outside the array JavaScript yields \<^verbatim>\<open>undefined\<close>, which
  equals none of the three cell strings; that is the value \<open>None\<close>. (Boards always have
  \<^verbatim>\<open>SIZE\<close> rows, so the row read itself never fails.)
\<close>

definition cellAt :: "board \<Rightarrow> nat \<Rightarrow> nat \<Rightarrow> cell option" where
  "cellAt b i j = (if i < length b \<and> j < length (b ! i) then Some (b ! i ! j) else None)"

text \<open>The write \<^verbatim>\<open>board[i][j] = m\<close> at loop indices that were just read as a cell.\<close>

definition put :: "board \<Rightarrow> nat \<Rightarrow> nat \<Rightarrow> cell \<Rightarrow> board" where
  "put b i j m = b[i := (b ! i)[j := m]]"

text \<open>The index pairs of the nested loops \<^verbatim>\<open>for i < SIZE, for j < SIZE\<close>, in visiting order.\<close>

definition coords :: "(nat \<times> nat) list" where
  "coords = concat (map (\<lambda>i. map (\<lambda>j. (i, j)) [0..<SIZE]) [0..<SIZE])"

definition copyBoard :: "board \<Rightarrow> board" where
  "copyBoard b = map (\<lambda>row. row) b"

definition countMoves :: "board \<Rightarrow> nat" where
  "countMoves b = length (filter (\<lambda>c. c \<noteq> Empty) (concat b))"

subsection \<open>checkWinner\<close>

text \<open>
  \<^verbatim>\<open>lines\<close> is filled in the order row 0, column 0, row 1, column 1, row 2, column 2,
  main diagonal, anti-diagonal (lines 225-232).
\<close>

definition winLines :: "board \<Rightarrow> cell list list" where
  "winLines b =
     concat (map (\<lambda>i. [b ! i, map (\<lambda>row. row ! i) b]) [0..<SIZE])
     @ [map (\<lambda>(row, i). row ! i) (zip b [0..<length b]),
        map (\<lambda>(row, i). row ! (SIZE - 1 - i)) (zip b [0..<length b])]"

fun scanLines :: "cell list list \<Rightarrow> cell option" where
  "scanLines [] = None"
| "scanLines (l # ls) =
     (if list_all (\<lambda>c. c = MarkX) l then Some MarkX
      else if list_all (\<lambda>c. c = MarkO) l then Some MarkO
      else scanLines ls)"

definition checkWinner :: "board \<Rightarrow> cell option" where
  "checkWinner b = scanLines (winLines b)"

text \<open>
  The reference of the specification: rows in ascending order, then columns in ascending
  order, then the main diagonal, then the anti-diagonal; the mark of the first line that
  one mark fills is returned.
\<close>

definition specLines :: "board \<Rightarrow> cell list list" where
  "specLines b =
     map (\<lambda>i. b ! i) [0..<SIZE]
     @ map (\<lambda>i. map (\<lambda>row. row ! i) b) [0..<SIZE]
     @ [map (\<lambda>(row, i). row ! i) (zip b [0..<length b]),
        map (\<lambda>(row, i). row ! (SIZE - 1 - i)) (zip b [0..<length b])]"

definition checkWinner_spec :: "board \<Rightarrow> cell option" where
  "checkWinner_spec b = scanLines (specLines b)"

subsection \<open>getBoardKey\<close>

text \<open>\<^verbatim>\<open>Array.prototype.join\<close> with its default separator, the comma.\<close>

fun join :: "string list \<Rightarrow> string" where
  "join [] = []"
| "join [s] = s"
| "join (s # t # ss) = s @ '','' @ join (t # ss)"

definition cellStr :: "cell \<Rightarrow> string" where
  "cellStr c = (case c of Empty \<Rightarrow> [] | MarkX \<Rightarrow> ''X'' | MarkO \<Rightarrow> ''O'')"

definition getBoardKey :: "board \<Rightarrow> string" where
  "getBoardKey b = join (map (\<lambda>c. if c = Empty then ''_'' else cellStr c) (concat b))"

section \<open>Adversarial search\<close>

text \<open>
  Scores are JavaScript numbers; the search uses \<^verbatim>\<open>-Infinity\<close>, \<^verbatim>\<open>+Infinity\<close> and the
  integers \<open>-10\<close>, \<open>0\<close>, \<open>10\<close>. \<open>num_less\<close> is \<^verbatim>\<open><\<close> (and \<^verbatim>\<open>a > b\<close> is
  \<open>num_less b a\<close>), \<open>num_max\<close> is \<^verbatim>\<open>Math.max\<close>, \<open>num_min\<close> is \<^verbatim>\<open>Math.min\<close>.
\<close>

datatype num = NegInf | Num int | PosInf

fun num_less :: "num \<Rightarrow> num \<Rightarrow> bool" where
  "num_less NegInf NegInf = False"
| "num_less NegInf _ = True"
| "num_less (Num a) NegInf = False"
| "num_less (Num a) (Num b) = (a < b)"
| "num_less (Num a) PosInf = True"
| "num_less PosInf _ = False"

definition num_max :: "num \<Rightarrow> num \<Rightarrow> num" where
  "num_max a b = (if num_less a b then b else a)"

definition num_min :: "num \<Rightarrow> num \<Rightarrow> num" where
  "num_min a b = (if num_less b a then b else a)"

definition evaluateBoard :: "board \<Rightarrow> num" where
  "evaluateBoard b =
     (let w = checkWinner b in
      if w = Some MarkO then Num 10
      else if w = Some MarkX then Num (- 10)
      else Num 0)"

text \<open>
  \<^verbatim>\<open>minimax\<close> writes into the board it is given and undoes each write, so the model
  threads the board: every function returns the board as it is left. The first argument
  bounds the depth of the recursion (the call stack); \<open>None\<close> says the bound was hit.
  \<open>maxLoop\<close> and \<open>minLoop\<close> are the two pairs of nested loops of lines 146-155 and
  159-168, over the remaining index pairs, with the running \<^verbatim>\<open>bestScore\<close>.
\<close>

fun minimax :: "nat \<Rightarrow> board \<Rightarrow> bool \<Rightarrow> (num \<times> board) option"
  and maxLoop :: "nat \<Rightarrow> (nat \<times> nat) list \<Rightarrow> board \<Rightarrow> num \<Rightarrow> (num \<times> board) option"
  and minLoop :: "nat \<Rightarrow> (nat \<times> nat) list \<Rightarrow> board \<Rightarrow> num \<Rightarrow> (num \<times> board) option"
where
  "minimax 0 b isMaximizing = None"
| "minimax (Suc d) b isMaximizing =
     (let score = evaluateBoard b in
      if score \<noteq> Num 0 then Some (score, b)
      else if countMoves b = SIZE * SIZE then Some (Num 0, b)
      else if isMaximizing then maxLoop d coords b NegInf
      else minLoop d coords b PosInf)"
| "maxLoop d [] b bestScore = Some (bestScore, b)"
| "maxLoop d ((i, j) # rest) b bestScore =
     (if cellAt b i j = Some Empty then
        (case minimax d (put b i j MarkO) False of
           None \<Rightarrow> None
         | Some (val, b') \<Rightarrow> maxLoop d rest (put b' i j Empty) (num_max bestScore val))
      else maxLoop d rest b bestScore)"
| "minLoop d [] b bestScore = Some (bestScore, b)"
| "minLoop d ((i, j) # rest) b bestScore =
     (if cellAt b i j = Some Empty then
        (case minimax d (put b i j MarkX) True of
           None \<Rightarrow> None
         | Some (val, b') \<Rightarrow> minLoop d rest (put b' i j Empty) (num_min bestScore val))
      else minLoop d rest b bestScore)"

text \<open>
  \<^verbatim>\<open>getBestMove\<close>: a move is the object \<^verbatim>\<open>{row, col}\<close>, here the pair \<open>(row, col)\<close>
  of integers, \<open>(-1, -1)\<close> at the start. \<open>bestLoop\<close> is the pair of nested loops of
  lines 117-129 with the running \<^verbatim>\<open>bestVal\<close> and \<^verbatim>\<open>bestMove\<close>.
\<close>

type_synonym move = "int \<times> int"

fun bestLoop ::
  "nat \<Rightarrow> (nat \<times> nat) list \<Rightarrow> board \<Rightarrow> num \<Rightarrow> move \<Rightarrow> (move \<times> board) option" where
  "bestLoop d [] b bestVal bestMove = Some (bestMove, b)"
| "bestLoop d ((i, j) # rest) b bestVal bestMove =
     (if cellAt b i j = Some Empty then
        (case minimax d (put b i j MarkO) False of
           None \<Rightarrow> None
         | Some (moveVal, b') \<Rightarrow>
             if num_less bestVal moveVal
             then bestLoop d rest (put b' i j Empty) moveVal (int i, int j)
             else bestLoop d rest (put b' i j Empty) bestVal bestMove)
      else bestLoop d rest b bestVal bestMove)"

definition getBestMove :: "nat \<Rightarrow> board \<Rightarrow> (move \<times> board) option" where
  "getBestMove d b = bestLoop d coords b NegInf (- 1, - 1)"

section \<open>State-graph builder\<close>

text \<open>
  The values stored in the 21 slots of a CSV row: numbers (page ids), strings, and
  \<^verbatim>\<open>undefined\<close> for a board read outside the array.
\<close>

datatype jsval = JNum nat | JStr string | JUndefined

text \<open>
  A page record \<^verbatim>\<open>{page, board, content, contentCsv}\<close>. The text rendering \<^verbatim>\<open>content\<close>
  (lines 33, 52, 55, 58, 95, 103) is only ever appended to and stored; nothing reads it
  back, and it is left out. The links it prints are the ones stored in \<^verbatim>\<open>contentCsv\<close>.
\<close>

record pageRec =
  page :: nat
  board :: board
  contentCsv :: "jsval list"

text \<open>The module-level variables \<^verbatim>\<open>currentPage\<close> and \<^verbatim>\<open>pages\<close> (lines 7-8).\<close>

record globals =
  currentPage :: nat
  pages :: "string \<rightharpoonup> pageRec"

definition globals0 :: globals where
  "globals0 = \<lparr>currentPage = 1, pages = Map.empty\<rparr>"

datatype error = TypeError | DepthExceeded | NotABoard

text \<open>
  The assignment \<^verbatim>\<open>newBoard[bestRow][bestCol] = 'O'\<close> (line 74) with the indices that
  \<^verbatim>\<open>getBestMove\<close> returned. With a row index outside the array, \<^verbatim>\<open>newBoard[bestRow]\<close>
  is \<^verbatim>\<open>undefined\<close> and the assignment throws a \<^verbatim>\<open>TypeError\<close>. Inside the board the cell
  is overwritten, whatever it held. With a column index outside an existing row the
  program raises nothing: the row grows (or gets a property \<^verbatim>\<open>-1\<close>) and is no row of
  cells any more. The type \<open>board\<close> has no such value, so \<open>NotABoard\<close> is not an error of
  the program but the mark of that case; \<open>nextBoard_applies\<close> below shows that the
  builder never reaches it.
\<close>

definition assignCell :: "board \<Rightarrow> int \<Rightarrow> int \<Rightarrow> cell \<Rightarrow> error + board" where
  "assignCell b r c m =
     (if r < 0 \<or> int (length b) \<le> r then Inl TypeError
      else if 0 \<le> c \<and> c < int (length (b ! nat r)) then Inr (put b (nat r) (nat c) m)
      else Inl NotABoard)"

text \<open>
  Lines 63-75: the board after the human's move at \<open>(i, j)\<close> and, when the game goes
  on, the reply of \<^verbatim>\<open>getBestMove\<close>.
\<close>

definition nextBoard :: "nat \<Rightarrow> board \<Rightarrow> nat \<Rightarrow> nat \<Rightarrow> error + board" where
  "nextBoard d b i j =
     (let newBoard = put (copyBoard b) i j MarkX;
          winnerAfterX = checkWinner newBoard;
          movesAfterX = countMoves newBoard
      in if winnerAfterX = None \<and> movesAfterX < SIZE * SIZE then
           (case getBestMove d newBoard of
              None \<Rightarrow> Inl DepthExceeded
            | Some ((bestRow, bestCol), newBoard') \<Rightarrow> assignCell newBoard' bestRow bestCol MarkO)
         else Inr newBoard)"

text \<open>
  Lines 60-100: the loops over the cells of the page's board, for the remaining index
  pairs. The state is the globals, the queue and the CSV row under construction.
\<close>

fun expandLoop ::
  "nat \<Rightarrow> board \<Rightarrow> (nat \<times> nat) list \<Rightarrow> globals \<times> string list \<times> jsval list
     \<Rightarrow> error + (globals \<times> string list \<times> jsval list)" where
  "expandLoop d b [] s = Inr s"
| "expandLoop d b ((i, j) # rest) (g, queue, csv) =
     (if cellAt b i j = Some Empty then
        (case nextBoard d b i j of
           Inl e \<Rightarrow> Inl e
         | Inr newBoard \<Rightarrow>
             (let newKey = getBoardKey newBoard in
              case pages g newKey of
                Some r \<Rightarrow>
                  expandLoop d b rest (g, queue, csv[3 + (i * SIZE + j) := JNum (page r)])
              | None \<Rightarrow>
                  (let nextPage = currentPage g in
                   expandLoop d b rest
                     (\<lparr>currentPage = nextPage + 1,
                       pages = (pages g)(newKey \<mapsto>
                                 \<lparr>page = nextPage, board = newBoard, contentCsv = []\<rparr>)\<rparr>,
                      queue @ [newKey],
                      csv[3 + (i * SIZE + j) := JNum nextPage]))))
      else expandLoop d b rest (g, queue, csv))"

text \<open>Lines 41-49: the fresh CSV row with the page number and the board symbols.\<close>

definition csvInit :: "pageRec \<Rightarrow> jsval list" where
  "csvInit record =
     fold (\<lambda>(i, j) csv. csv[12 + (i * SIZE + j) :=
             (case cellAt (board record) i j of Some c \<Rightarrow> JStr (cellStr c) | None \<Rightarrow> JUndefined)])
       coords ((replicate 21 (JStr []))[0 := JNum (page record)])"

text \<open>
  One iteration of the \<^verbatim>\<open>while\<close> loop (lines 30-104) for the key at the head of the
  queue. A key with no record makes \<^verbatim>\<open>record.board\<close> throw. \<^verbatim>\<open>record\<close> is the object
  stored under \<^verbatim>\<open>boardKey\<close>; the loops add records under new keys only, so storing the
  CSV row into it is the update of the map at \<^verbatim>\<open>boardKey\<close>.
\<close>

definition processPage :: "nat \<Rightarrow> string \<Rightarrow> globals \<times> string list \<Rightarrow> error + (globals \<times> string list)" where
  "processPage d boardKey s =
     (case s of (g, queue) \<Rightarrow>
      case pages g boardKey of
        None \<Rightarrow> Inl TypeError
      | Some record \<Rightarrow>
          (let b = board record;
               movesCount = countMoves b;
               winner = checkWinner b;
               csv = csvInit record
           in case (if winner \<noteq> None then Inr (g, queue, csv[1 := JStr ''You lost!''])
                    else if movesCount = SIZE * SIZE then Inr (g, queue, csv[2 := JStr ''It's a draw!''])
                    else expandLoop d b coords (g, queue, csv)) of
                Inl e \<Rightarrow> Inl e
              | Inr (g', queue', csv') \<Rightarrow>
                  Inr (g'\<lparr>pages := (pages g')(boardKey \<mapsto> record\<lparr>contentCsv := csv'\<rparr>)\<rparr>, queue')))"

text \<open>
  Lines 27-106: the \<^verbatim>\<open>while\<close> loop over the queue. \<^verbatim>\<open>queue.shift()\<close> takes the key at the
  head; the loop ends with the queue empty.
\<close>

function generateLoop :: "nat \<Rightarrow> globals \<times> string list \<Rightarrow> error + globals" where
  "generateLoop d (g, queue) =
     (case queue of
        [] \<Rightarrow> Inr g
      | boardKey # rest \<Rightarrow>
          (case processPage d boardKey (g, rest) of
             Inl e \<Rightarrow> Inl e
           | Inr s \<Rightarrow> generateLoop d s))"
  by pat_completeness auto

text \<open>
  That the loop ends on every state is proved below (\<open>termination generateLoop\<close>), once
  the search is known to hand back the board it was given.
\<close>

text \<open>
  \<^verbatim>\<open>generatePaths\<close> (lines 15-107) reads and writes the module-level \<^verbatim>\<open>currentPage\<close> and
  \<^verbatim>\<open>pages\<close>: it stores the record of the empty board under its key with the page number
  \<^verbatim>\<open>currentPage++\<close>, runs the loop from the queue holding that key, and returns \<^verbatim>\<open>pages\<close>.
\<close>

definition initialBoard :: board where
  "initialBoard = replicate SIZE (replicate SIZE Empty)"

definition generatePaths :: "nat \<Rightarrow> globals \<Rightarrow> error + globals" where
  "generatePaths d g =
     (let initialKey = getBoardKey initialBoard;
          g1 = \<lparr>currentPage = currentPage g + 1,
                pages = (pages g)(initialKey \<mapsto>
                          \<lparr>page = currentPage g, board = initialBoard, contentCsv = []\<rparr>)\<rparr>
      in generateLoop d (g1, [initialKey]))"

section \<open>Properties of the board model\<close>

lemma upt_SIZE: "[0..<SIZE] = [0, 1, 2]"
  unfolding SIZE_def by (simp add: upt_rec)

lemma coords_eq:
  "coords = [(0, 0), (0, 1), (0, 2), (1, 0), (1, 1), (1, 2), (2, 0), (2, 1), (2, 2)]"
  by (simp add: coords_def upt_SIZE)

lemma length3E: "length xs = 3 \<Longrightarrow> \<exists>a b c. xs = [a, b, c]"
  by (cases xs; simp; cases "tl xs"; simp; cases "tl (tl xs)"; simp)

lemma wf_board_shape:
  assumes "wf_board b"
  obtains a0 a1 a2 b0 b1 b2 c0 c1 c2
  where "b = [[a0, a1, a2], [b0, b1, b2], [c0, c1, c2]]"
proof -
  from assms have l: "length b = 3" and r: "list_all (\<lambda>row. length row = 3) b"
    by (simp_all add: wf_board_def SIZE_def)
  from length3E[OF l] obtain r0 r1 r2 where b: "b = [r0, r1, r2]" by blast
  with r have "length r0 = 3" "length r1 = 3" "length r2 = 3" by simp_all
  with b that show thesis by (metis length3E)
qed

subsection \<open>The scan order of checkWinner\<close>

definition lineMark :: "cell list \<Rightarrow> cell option" where
  "lineMark l = (if list_all (\<lambda>c. c = MarkX) l then Some MarkX
                 else if list_all (\<lambda>c. c = MarkO) l then Some MarkO else None)"

fun firstSome :: "cell option list \<Rightarrow> cell option" where
  "firstSome [] = None"
| "firstSome (None # ms) = firstSome ms"
| "firstSome (Some m # ms) = Some m"

lemma scanLines_firstSome: "scanLines ls = firstSome (map lineMark ls)"
  by (induction ls) (simp_all add: lineMark_def)

lemma firstSome_reorder:
  assumes "p1 = None \<or> q0 = None \<or> p1 = q0"
    and "p2 = None \<or> q0 = None \<or> p2 = q0"
    and "p2 = None \<or> q1 = None \<or> p2 = q1"
  shows "firstSome (p0 # q0 # p1 # q1 # p2 # q2 # rest) = firstSome (p0 # p1 # p2 # q0 # q1 # q2 # rest)"
  using assms by (cases p0; cases q0; cases p1; cases q1; cases p2; simp)

lemma lineMark_mem: "lineMark l = Some m \<Longrightarrow> c \<in> set l \<Longrightarrow> c = m"
  by (auto simp: lineMark_def list_all_iff split: if_splits)

lemma lineMark_share:
  "c \<in> set l \<Longrightarrow> c \<in> set l' \<Longrightarrow> lineMark l = None \<or> lineMark l' = None \<or> lineMark l = lineMark l'"
  by (cases "lineMark l"; cases "lineMark l'") (auto dest: lineMark_mem)

lemma winLines_3:
  "winLines [[a0, a1, a2], [b0, b1, b2], [c0, c1, c2]] =
     [[a0, a1, a2], [a0, b0, c0], [b0, b1, b2], [a1, b1, c1], [c0, c1, c2], [a2, b2, c2],
      [a0, b1, c2], [a2, b1, c0]]"
  unfolding winLines_def upt_SIZE unfolding SIZE_def by simp

lemma specLines_3:
  "specLines [[a0, a1, a2], [b0, b1, b2], [c0, c1, c2]] =
     [[a0, a1, a2], [b0, b1, b2], [c0, c1, c2], [a0, b0, c0], [a1, b1, c1], [a2, b2, c2],
      [a0, b1, c2], [a2, b1, c0]]"
  unfolding specLines_def upt_SIZE unfolding SIZE_def by simp

text \<open>
  Claim C4. On every board, \<^verbatim>\<open>checkWinner\<close> returns what the reference scan returns that
  checks the rows in ascending order, then the columns in ascending order, then the main
  diagonal, then the anti-diagonal, and yields the mark of the first line filled by one
  mark (no winner when there is none). The code visits row and column alternately; a row
  and a column share a cell, so the two orders never disagree.
\<close>

theorem checkWinner_refines_spec_order:
  "wf_board b \<Longrightarrow> checkWinner b = checkWinner_spec b"
proof -
  assume "wf_board b"
  then obtain a0 a1 a2 b0 b1 b2 c0 c1 c2
    where b: "b = [[a0, a1, a2], [b0, b1, b2], [c0, c1, c2]]"
    by (rule wf_board_shape)
  show ?thesis
    unfolding b checkWinner_def checkWinner_spec_def winLines_3 specLines_3
      scanLines_firstSome list.map
    by (rule firstSome_reorder)
      (rule lineMark_share[where c = b0], simp, simp,
       rule lineMark_share[where c = c0], simp, simp,
       rule lineMark_share[where c = c1], simp, simp)
qed

theorem checkWinner_refines_spec_order_witness:
  "wf_board [[MarkO, MarkX, Empty], [MarkO, MarkX, Empty], [MarkO, MarkX, Empty]]
   \<and> checkWinner [[MarkO, MarkX, Empty], [MarkO, MarkX, Empty], [MarkO, MarkX, Empty]]
     = checkWinner_spec [[MarkO, MarkX, Empty], [MarkO, MarkX, Empty], [MarkO, MarkX, Empty]]
   \<and> checkWinner_spec [[MarkO, MarkX, Empty], [MarkO, MarkX, Empty], [MarkO, MarkX, Empty]]
     = Some MarkO"
proof -
  have w: "wf_board [[MarkO, MarkX, Empty], [MarkO, MarkX, Empty], [MarkO, MarkX, Empty]]"
    by (simp add: wf_board_def SIZE_def)
  have "checkWinner_spec [[MarkO, MarkX, Empty], [MarkO, MarkX, Empty], [MarkO, MarkX, Empty]]
     = Some MarkO"
    by (simp add: checkWinner_spec_def specLines_3)
  with w checkWinner_refines_spec_order[OF w] show ?thesis by simp
qed

subsection \<open>The key is injective\<close>

definition keyChar :: "cell \<Rightarrow> char" where
  "keyChar c = (case c of Empty \<Rightarrow> CHR ''_'' | MarkX \<Rightarrow> CHR ''X'' | MarkO \<Rightarrow> CHR ''O'')"

lemma keyChar_inj: "keyChar c = keyChar d \<Longrightarrow> c = d"
  by (cases c; cases d) (simp_all add: keyChar_def)

lemma key_cell: "(if c = Empty then ''_'' else cellStr c) = [keyChar c]"
  by (cases c) (simp_all add: keyChar_def cellStr_def)

lemma join_key_Cons:
  "join (map (\<lambda>c. [keyChar c]) (x # xs)) =
     keyChar x # (if xs = [] then [] else CHR '','' # join (map (\<lambda>c. [keyChar c]) xs))"
  by (cases xs) simp_all

lemma join_key_Nil: "(join (map (\<lambda>c. [keyChar c]) xs) = []) = (xs = [])"
  by (cases xs) (simp_all only: join_key_Cons, simp_all)

lemma join_keys_inj:
  "join (map (\<lambda>c. [keyChar c]) xs) = join (map (\<lambda>c. [keyChar c]) ys) \<Longrightarrow> xs = ys"
proof (induction xs arbitrary: ys)
  case Nil
  then show ?case using join_key_Nil[of ys] by simp
next
  case (Cons x xs)
  from Cons.prems obtain y ys' where ys: "ys = y # ys'"
    using join_key_Nil[of "x # xs"] by (cases ys) auto
  from Cons.prems have e: "keyChar x = keyChar y"
    and r: "(if xs = [] then [] else CHR '','' # join (map (\<lambda>c. [keyChar c]) xs))
          = (if ys' = [] then [] else CHR '','' # join (map (\<lambda>c. [keyChar c]) ys'))"
    unfolding ys join_key_Cons by simp_all
  from r have "join (map (\<lambda>c. [keyChar c]) xs) = join (map (\<lambda>c. [keyChar c]) ys')"
    by (cases "xs = []"; cases "ys' = []") (simp_all split: if_splits)
  with Cons.IH have "xs = ys'" .
  with e ys show ?case by (simp add: keyChar_inj)
qed

lemma wf_concat_inj:
  assumes "wf_board a" "wf_board b" "concat a = concat b"
  shows "a = b"
proof (rule concat_injective[OF assms(3)])
  show "length a = length b" using assms by (simp add: wf_board_def)
  show "\<forall>(x, y)\<in>set (zip a b). length x = length y"
  proof (clarify)
    fix x y assume "(x, y) \<in> set (zip a b)"
    then have "x \<in> set a" "y \<in> set b" by (auto dest: set_zip_leftD set_zip_rightD)
    with assms(1,2) show "length x = length y" by (simp add: wf_board_def list_all_iff)
  qed
qed

lemma getBoardKey_inj: "wf_board a \<Longrightarrow> wf_board b \<Longrightarrow> getBoardKey a = getBoardKey b \<Longrightarrow> a = b"
  using join_keys_inj[of "concat a" "concat b"] wf_concat_inj[of a b]
  by (auto simp: getBoardKey_def key_cell)

text \<open>
  Claim C6. Two boards have the same key exactly when they hold the same cells: the key
  is a function of the cell contents alone and is injective on them, the empty cell being
  written as \<^verbatim>\<open>_\<close>, which is neither mark.
\<close>

theorem getBoardKey_injective:
  "wf_board a \<Longrightarrow> wf_board b \<Longrightarrow> (getBoardKey a = getBoardKey b) = (a = b)"
  using getBoardKey_inj[of a b] by auto

theorem getBoardKey_injective_witness:
  "wf_board [[MarkX, Empty, Empty], [Empty, MarkO, Empty], [Empty, Empty, Empty]]
   \<and> wf_board (put (replicate 3 (replicate 3 Empty)) 1 1 MarkO)
   \<and> getBoardKey [[MarkX, Empty, Empty], [Empty, MarkO, Empty], [Empty, Empty, Empty]]
       = ''X,_,_,_,O,_,_,_,_''
   \<and> (getBoardKey [[MarkX, Empty, Empty], [Empty, MarkO, Empty], [Empty, Empty, Empty]]
        = getBoardKey (put (replicate 3 (replicate 3 Empty)) 1 1 MarkO))
     = ([[MarkX, Empty, Empty], [Empty, MarkO, Empty], [Empty, Empty, Empty]]
        = put (replicate 3 (replicate 3 Empty)) 1 1 MarkO)"
proof -
  have a: "wf_board [[MarkX, Empty, Empty], [Empty, MarkO, Empty], [Empty, Empty, Empty]]"
    by (simp add: wf_board_def SIZE_def)
  have b: "wf_board (put (replicate 3 (replicate 3 Empty)) 1 1 MarkO)"
    by (simp add: wf_board_def SIZE_def put_def numeral_3_eq_3)
  have k: "getBoardKey [[MarkX, Empty, Empty], [Empty, MarkO, Empty], [Empty, Empty, Empty]]
       = ''X,_,_,_,O,_,_,_,_''"
    by (simp add: getBoardKey_def cellStr_def)
  from a b k getBoardKey_injective[OF a b] show ?thesis by simp
qed

section \<open>The search leaves the board as it found it\<close>

lemma cellAt_put:
  "cellAt (put b i j m) i' j' =
     (if i' = i \<and> j' = j \<and> cellAt b i j \<noteq> None then Some m else cellAt b i' j')"
  by (auto simp: cellAt_def put_def nth_list_update)

lemma put_restore: "cellAt b i j = Some c \<Longrightarrow> put (put b i j m) i j c = b"
  by (auto simp: cellAt_def put_def list_update_same_conv split: if_splits)

lemma search_frame:
  "(\<forall>v b'. minimax d b mx = Some (v, b') \<longrightarrow> b' = b)"
  "(\<forall>v b'. maxLoop d cs b best = Some (v, b') \<longrightarrow> b' = b)"
  "(\<forall>v b'. minLoop d cs b best = Some (v, b') \<longrightarrow> b' = b)"
proof (induction d b mx and d cs b best and d cs b best rule: minimax_maxLoop_minLoop.induct)
  case (1 b isMaximizing)
  then show ?case by simp
next
  case (2 d b isMaximizing)
  then show ?case by (simp add: Let_def)
next
  case (3 d b bestScore)
  then show ?case by simp
next
  case (4 d i j rest b bestScore)
  show ?case
  proof (cases "cellAt b i j = Some Empty")
    case True
    show ?thesis
    proof (intro allI impI)
      fix v b' assume r: "maxLoop d ((i, j) # rest) b bestScore = Some (v, b')"
      with True obtain val b1 where m: "minimax d (put b i j MarkO) False = Some (val, b1)"
        and l: "maxLoop d rest (put b1 i j Empty) (num_max bestScore val) = Some (v, b')"
        by (auto split: option.splits)
      from "4.IH"(1)[OF True] m have b1: "b1 = put b i j MarkO" by blast
      have "put b1 i j Empty = b" unfolding b1 using True by (rule put_restore)
      with "4.IH"(2)[OF True m refl] l show "b' = b" by auto
    qed
  next
    case False
    with "4.IH"(3) show ?thesis by simp
  qed
next
  case (5 d b bestScore)
  then show ?case by simp
next
  case (6 d i j rest b bestScore)
  show ?case
  proof (cases "cellAt b i j = Some Empty")
    case True
    show ?thesis
    proof (intro allI impI)
      fix v b' assume r: "minLoop d ((i, j) # rest) b bestScore = Some (v, b')"
      with True obtain val b1 where m: "minimax d (put b i j MarkX) True = Some (val, b1)"
        and l: "minLoop d rest (put b1 i j Empty) (num_min bestScore val) = Some (v, b')"
        by (auto split: option.splits)
      from "6.IH"(1)[OF True] m have b1: "b1 = put b i j MarkX" by blast
      have "put b1 i j Empty = b" unfolding b1 using True by (rule put_restore)
      with "6.IH"(2)[OF True m refl] l show "b' = b" by auto
    qed
  next
    case False
    with "6.IH"(3) show ?thesis by simp
  qed
qed


section \<open>The value the search computes\<close>

text \<open>
  The cells that the loops of the search visit: the index pairs, in loop order, at which
  the board reads as the empty string. \<open>mmv\<close> is the score \<^verbatim>\<open>minimax\<close> returns, written
  without the depth bound and the threaded board; \<open>minimax_eq_mmv\<close> below relates the two.
\<close>

definition emptyCells :: "board \<Rightarrow> (nat \<times> nat) list" where
  "emptyCells b = filter (\<lambda>(i, j). cellAt b i j = Some Empty) coords"

definition emptyCount :: "board \<Rightarrow> nat" where
  "emptyCount b = length (emptyCells b)"

lemma filter_length_mono:
  "(\<And>y. y \<in> set xs \<Longrightarrow> Q y \<Longrightarrow> P y) \<Longrightarrow> length (filter Q xs) \<le> length (filter P xs)"
  by (induction xs) (auto simp: le_SucI)

lemma filter_length_less:
  "x \<in> set xs \<Longrightarrow> P x \<Longrightarrow> \<not> Q x \<Longrightarrow> (\<And>y. y \<in> set xs \<Longrightarrow> Q y \<Longrightarrow> P y)
   \<Longrightarrow> length (filter Q xs) < length (filter P xs)"
proof (induction xs)
  case Nil
  then show ?case by simp
next
  case (Cons a xs)
  have le: "length (filter Q xs) \<le> length (filter P xs)"
    using Cons.prems(4) by (intro filter_length_mono) auto
  show ?case
  proof (cases "x = a")
    case True
    with Cons.prems le show ?thesis by (simp add: less_Suc_eq_le)
  next
    case False
    with Cons.prems have "x \<in> set xs" by simp
    from Cons.IH[OF this Cons.prems(2,3)] Cons.prems(4)
    have "length (filter Q xs) < length (filter P xs)" by simp
    with Cons.prems(4)[of a] show ?thesis by auto
  qed
qed

lemma emptyCount_le: "emptyCount b \<le> 9"
proof -
  have "emptyCount b \<le> length coords" unfolding emptyCount_def emptyCells_def by (rule length_filter_le)
  then show ?thesis by (simp add: coords_def SIZE_def upt_rec)
qed

lemma emptyCount_put_less:
  assumes "(i, j) \<in> set coords" "cellAt b i j = Some Empty" "m \<noteq> Empty"
  shows "emptyCount (put b i j m) < emptyCount b"
  unfolding emptyCount_def emptyCells_def
  by (rule filter_length_less[where x = "(i, j)"]) (use assms in \<open>auto simp: cellAt_put split: if_splits\<close>)

lemma emptyCount_put_le: "m \<noteq> Empty \<Longrightarrow> emptyCount (put b i j m) \<le> emptyCount b"
  unfolding emptyCount_def emptyCells_def
  by (rule filter_length_mono) (auto simp: cellAt_put split: if_splits)

lemma emptyCells_D: "c \<in> set (emptyCells b) \<Longrightarrow> c \<in> set coords \<and> cellAt b (fst c) (snd c) = Some Empty"
  by (auto simp: emptyCells_def)

function mmv :: "board \<Rightarrow> bool \<Rightarrow> num" where
  "mmv b mx =
     (if evaluateBoard b \<noteq> Num 0 then evaluateBoard b
      else if countMoves b = SIZE * SIZE then Num 0
      else if mx then
        fold (\<lambda>c best. num_max best (mmv (put b (fst c) (snd c) MarkO) False)) (emptyCells b) NegInf
      else
        fold (\<lambda>c best. num_min best (mmv (put b (fst c) (snd c) MarkX) True)) (emptyCells b) PosInf)"
  by pat_completeness auto
termination
  by (relation "measure (\<lambda>(b, mx). emptyCount b)")
    (auto dest!: emptyCells_D intro!: emptyCount_put_less)

declare mmv.simps [simp del]

subsection \<open>The depth-bounded search computes \<open>mmv\<close>\<close>

lemma maxLoop_eq:
  assumes IH: "\<And>b' mx. emptyCount b' < d \<Longrightarrow> minimax d b' mx = Some (mmv b' mx, b')"
    and d: "emptyCount b \<le> d" and cs: "set cs \<subseteq> set coords"
  shows "maxLoop d cs b best =
    Some (fold (\<lambda>c best. num_max best (mmv (put b (fst c) (snd c) MarkO) False))
            (filter (\<lambda>(i, j). cellAt b i j = Some Empty) cs) best, b)"
  using cs
proof (induction cs arbitrary: best)
  case Nil
  then show ?case by simp
next
  case (Cons c cs)
  obtain i j where c: "c = (i, j)" by (cases c)
  show ?case
  proof (cases "cellAt b i j = Some Empty")
    case True
    from Cons.prems c have "(i, j) \<in> set coords" by simp
    from emptyCount_put_less[OF this True, of MarkO] d
    have "emptyCount (put b i j MarkO) < d" by simp
    from IH[OF this, of False] Cons.IH Cons.prems True show ?thesis
      by (simp add: c put_restore)
  next
    case False
    with Cons.IH Cons.prems show ?thesis by (simp add: c)
  qed
qed

lemma minLoop_eq:
  assumes IH: "\<And>b' mx. emptyCount b' < d \<Longrightarrow> minimax d b' mx = Some (mmv b' mx, b')"
    and d: "emptyCount b \<le> d" and cs: "set cs \<subseteq> set coords"
  shows "minLoop d cs b best =
    Some (fold (\<lambda>c best. num_min best (mmv (put b (fst c) (snd c) MarkX) True))
            (filter (\<lambda>(i, j). cellAt b i j = Some Empty) cs) best, b)"
  using cs
proof (induction cs arbitrary: best)
  case Nil
  then show ?case by simp
next
  case (Cons c cs)
  obtain i j where c: "c = (i, j)" by (cases c)
  show ?case
  proof (cases "cellAt b i j = Some Empty")
    case True
    from Cons.prems c have "(i, j) \<in> set coords" by simp
    from emptyCount_put_less[OF this True, of MarkX] d
    have "emptyCount (put b i j MarkX) < d" by simp
    from IH[OF this, of True] Cons.IH Cons.prems True show ?thesis
      by (simp add: c put_restore)
  next
    case False
    with Cons.IH Cons.prems show ?thesis by (simp add: c)
  qed
qed

lemma minimax_eq_mmv: "emptyCount b < d \<Longrightarrow> minimax d b mx = Some (mmv b mx, b)"
proof (induction d arbitrary: b mx)
  case 0
  then show ?case by simp
next
  case (Suc d)
  from Suc.prems have le: "emptyCount b \<le> d" by simp
  note mx = maxLoop_eq[OF Suc.IH le subset_refl, of NegInf]
  note mn = minLoop_eq[OF Suc.IH le subset_refl, of PosInf]
  show ?case
    by (subst mmv.simps) (simp add: Let_def mx mn emptyCells_def)
qed

text \<open>The same for \<^verbatim>\<open>getBestMove\<close>: the running pair \<^verbatim>\<open>(bestVal, bestMove)\<close>.\<close>

definition bestStep :: "board \<Rightarrow> nat \<times> nat \<Rightarrow> num \<times> move \<Rightarrow> num \<times> move" where
  "bestStep b c acc =
     (if num_less (fst acc) (mmv (put b (fst c) (snd c) MarkO) False)
      then (mmv (put b (fst c) (snd c) MarkO) False, (int (fst c), int (snd c)))
      else acc)"

definition bestMove :: "board \<Rightarrow> move" where
  "bestMove b = snd (fold (bestStep b) (emptyCells b) (NegInf, (- 1, - 1)))"

lemma bestLoop_eq:
  assumes d: "emptyCount b \<le> d" and cs: "set cs \<subseteq> set coords"
  shows "bestLoop d cs b bestVal bestMv =
    Some (snd (fold (bestStep b) (filter (\<lambda>(i, j). cellAt b i j = Some Empty) cs) (bestVal, bestMv)), b)"
  using cs
proof (induction cs arbitrary: bestVal bestMv)
  case Nil
  then show ?case by simp
next
  case (Cons c cs)
  obtain i j where c: "c = (i, j)" by (cases c)
  show ?case
  proof (cases "cellAt b i j = Some Empty")
    case True
    from Cons.prems c have "(i, j) \<in> set coords" by simp
    from emptyCount_put_less[OF this True, of MarkO] d
    have "emptyCount (put b i j MarkO) < d" by simp
    from minimax_eq_mmv[OF this, of False] Cons.IH Cons.prems True show ?thesis
      by (simp add: c put_restore bestStep_def)
  next
    case False
    with Cons.IH Cons.prems show ?thesis by (simp add: c)
  qed
qed

lemma getBestMove_eq: "emptyCount b \<le> d \<Longrightarrow> getBestMove d b = Some (bestMove b, b)"
  unfolding getBestMove_def bestMove_def emptyCells_def
  by (rule bestLoop_eq) simp_all

lemma bestLoop_frame: "bestLoop d cs b bestVal bestMv = Some (mv, b') \<Longrightarrow> b' = b"
proof (induction cs arbitrary: bestVal bestMv)
  case Nil
  then show ?case by simp
next
  case (Cons c cs)
  obtain i j where c: "c = (i, j)" by (cases c)
  show ?case
  proof (cases "cellAt b i j = Some Empty")
    case True
    with Cons.prems obtain val b1 where m: "minimax d (put b i j MarkO) False = Some (val, b1)"
      by (auto simp: c split: option.splits)
    with search_frame(1) have "b1 = put b i j MarkO" by blast
    with True have r: "put b1 i j Empty = b" by (simp add: put_restore)
    from Cons.prems True m r Cons.IH show ?thesis
      by (auto simp: c split: if_splits)
  next
    case False
    with Cons.prems Cons.IH show ?thesis by (simp add: c)
  qed
qed

text \<open>
  Claim C7. \<^verbatim>\<open>minimax\<close> and \<^verbatim>\<open>getBestMove\<close> leave the board they are given unchanged:
  whenever a call returns, for any board and either value of the flag, the board is cell
  for cell what it was on entry, every placement having been undone; and with a depth
  bound above the nine cells of a board both calls do return.
\<close>

theorem search_leaves_board_unchanged:
  "(\<forall>v b'. minimax d b mx = Some (v, b') \<longrightarrow> b' = b)
   \<and> (\<forall>mv b'. getBestMove d b = Some (mv, b') \<longrightarrow> b' = b)
   \<and> (9 < d \<longrightarrow> (\<exists>v. minimax d b mx = Some (v, b)) \<and> (\<exists>mv. getBestMove d b = Some (mv, b)))"
proof (intro conjI allI impI)
  fix v b' assume "minimax d b mx = Some (v, b')"
  with search_frame(1) show "b' = b" by blast
next
  fix mv b' assume "getBestMove d b = Some (mv, b')"
  then show "b' = b" unfolding getBestMove_def by (rule bestLoop_frame)
next
  assume "9 < d"
  with emptyCount_le[of b] have "emptyCount b < d" by simp
  then show "\<exists>v. minimax d b mx = Some (v, b)" by (simp add: minimax_eq_mmv)
next
  assume "9 < d"
  with emptyCount_le[of b] have "emptyCount b \<le> d" by simp
  then show "\<exists>mv. getBestMove d b = Some (mv, b)" by (simp add: getBestMove_eq)
qed

theorem search_leaves_board_unchanged_witness:
  "minimax 10 [[MarkX, MarkO, MarkX], [MarkO, MarkO, MarkX], [Empty, MarkX, Empty]] True
     = Some (Num 0, [[MarkX, MarkO, MarkX], [MarkO, MarkO, MarkX], [Empty, MarkX, Empty]])
   \<and> getBestMove 10 [[MarkX, MarkO, MarkX], [MarkO, MarkO, MarkX], [Empty, MarkX, Empty]]
     = Some ((2, 2), [[MarkX, MarkO, MarkX], [MarkO, MarkO, MarkX], [Empty, MarkX, Empty]])"
proof -
  let ?B = "[[MarkX, MarkO, MarkX], [MarkO, MarkO, MarkX], [Empty, MarkX, Empty]]"
  have "fst (the (minimax 10 ?B True)) = Num 0"
    by code_simp
  moreover have "fst (the (getBestMove 10 ?B)) = (2, 2)"
    by code_simp
  ultimately show ?thesis
    using search_leaves_board_unchanged[of 10 ?B True] by auto
qed

section \<open>Scores\<close>

lemma num_less_irrefl [simp]: "\<not> num_less a a"
  by (cases a) simp_all

lemma num_less_trans: "num_less a b \<Longrightarrow> num_less b c \<Longrightarrow> num_less a c"
  by (cases a; cases b; cases c) simp_all

lemma num_less_asym: "num_less a b \<Longrightarrow> \<not> num_less b a"
  by (cases a; cases b) simp_all

lemma num_le_less_trans: "\<not> num_less b a \<Longrightarrow> num_less b c \<Longrightarrow> num_less a c"
  by (cases a; cases b; cases c) simp_all

lemma num_less_le_trans: "num_less a b \<Longrightarrow> \<not> num_less c b \<Longrightarrow> num_less a c"
  by (cases a; cases b; cases c) simp_all

lemma num_le_trans: "\<not> num_less b a \<Longrightarrow> \<not> num_less c b \<Longrightarrow> \<not> num_less c a"
  by (cases a; cases b; cases c) simp_all

definition isScore :: "num \<Rightarrow> bool" where
  "isScore v = (v = Num (- 10) \<or> v = Num 0 \<or> v = Num 10)"

lemma isScore_gt_NegInf: "isScore v \<Longrightarrow> num_less NegInf v"
  by (auto simp: isScore_def)

lemma isScore_max: "isScore a \<or> a = NegInf \<Longrightarrow> isScore v \<Longrightarrow> isScore (num_max a v)"
  by (auto simp: isScore_def num_max_def)

lemma isScore_min: "isScore a \<or> a = PosInf \<Longrightarrow> isScore v \<Longrightarrow> isScore (num_min a v)"
  by (auto simp: isScore_def num_min_def)

lemma evaluateBoard_isScore: "isScore (evaluateBoard b)"
  by (simp add: evaluateBoard_def isScore_def Let_def)

lemma fold_max_isScore:
  "(\<And>c. c \<in> set cs \<Longrightarrow> isScore (f c)) \<Longrightarrow> isScore best \<or> (best = NegInf \<and> cs \<noteq> [])
   \<Longrightarrow> isScore (fold (\<lambda>c best. num_max best (f c)) cs best)"
proof (induction cs arbitrary: best)
  case Nil
  then show ?case by simp
next
  case (Cons c cs)
  have "isScore (num_max best (f c))"
    using Cons.prems by (intro isScore_max) auto
  with Cons.IH[of "num_max best (f c)"] Cons.prems(1) show ?case by simp
qed

lemma fold_min_isScore:
  "(\<And>c. c \<in> set cs \<Longrightarrow> isScore (f c)) \<Longrightarrow> isScore best \<or> (best = PosInf \<and> cs \<noteq> [])
   \<Longrightarrow> isScore (fold (\<lambda>c best. num_min best (f c)) cs best)"
proof (induction cs arbitrary: best)
  case Nil
  then show ?case by simp
next
  case (Cons c cs)
  have "isScore (num_min best (f c))"
    using Cons.prems by (intro isScore_min) auto
  with Cons.IH[of "num_min best (f c)"] Cons.prems(1) show ?case by simp
qed

section \<open>Well-formed boards\<close>

lemma wf_put: "wf_board b \<Longrightarrow> wf_board (put b i j m)"
  by (cases "i < length b") (auto simp: wf_board_def put_def list_all_length nth_list_update)

lemma in_coords: "((i, j) \<in> set coords) = (i < SIZE \<and> j < SIZE)"
  by (force simp: coords_def)

lemma wf_cellAt: "wf_board b \<Longrightarrow> (i, j) \<in> set coords \<Longrightarrow> cellAt b i j = Some (b ! i ! j)"
  by (auto simp: wf_board_def cellAt_def in_coords list_all_length)

lemma wf_cells_concat: "wf_board b \<Longrightarrow> map (\<lambda>(i, j). b ! i ! j) coords = concat b"
  by (erule wf_board_shape) (simp add: coords_eq)

lemma wf_emptyCells: "wf_board b \<Longrightarrow> emptyCells b = filter (\<lambda>(i, j). b ! i ! j = Empty) coords"
  unfolding emptyCells_def by (rule filter_cong) (auto simp: wf_cellAt)

lemma wf_counts:
  assumes "wf_board b" shows "countMoves b + emptyCount b = 9"
proof -
  have "emptyCount b = length (filter ((\<lambda>c. c = Empty) \<circ> (\<lambda>(i, j). b ! i ! j)) coords)"
    unfolding emptyCount_def wf_emptyCells[OF assms] by (simp add: comp_def case_prod_unfold)
  also have "\<dots> = length (filter (\<lambda>c. c = Empty) (concat b))"
    unfolding wf_cells_concat[OF assms, symmetric] by (simp only: length_filter_map)
  finally have e: "emptyCount b = length (filter (\<lambda>c. c = Empty) (concat b))" .
  have "length (concat b) = 9"
    using assms by (elim wf_board_shape) simp
  with sum_length_filter_compl[of "\<lambda>c. c = Empty" "concat b"] e show ?thesis
    by (simp add: countMoves_def)
qed

lemma wf_emptyCells_nonempty: "wf_board b \<Longrightarrow> countMoves b \<noteq> SIZE * SIZE \<Longrightarrow> emptyCells b \<noteq> []"
  using wf_counts[of b] by (auto simp: emptyCount_def SIZE_def)

lemma mmv_isScore: "wf_board b \<Longrightarrow> isScore (mmv b mx)"
proof (induction b mx rule: mmv.induct)
  case (1 b mx)
  show ?case
  proof (cases "evaluateBoard b \<noteq> Num 0 \<or> countMoves b = SIZE * SIZE")
    case True
    then show ?thesis using evaluateBoard_isScore[of b]
      by (subst mmv.simps) (auto simp: isScore_def)
  next
    case False
    with "1.prems" have ne: "emptyCells b \<noteq> []" by (simp add: wf_emptyCells_nonempty)
    show ?thesis
    proof (cases mx)
      case True
      have "isScore (fold (\<lambda>c best. num_max best (mmv (put b (fst c) (snd c) MarkO) False)) (emptyCells b) NegInf)"
        using False True ne "1.IH"(1) "1.prems" by (intro fold_max_isScore) (auto simp: wf_put)
      with False True show ?thesis by (subst mmv.simps) simp
    next
      case mn: False
      have "isScore (fold (\<lambda>c best. num_min best (mmv (put b (fst c) (snd c) MarkX) True)) (emptyCells b) PosInf)"
        using False mn ne "1.IH"(2) "1.prems" by (intro fold_min_isScore) (auto simp: wf_put)
      with False mn show ?thesis by (subst mmv.simps) simp
    qed
  qed
qed

text \<open>
  Claim C10. On every board of three rows of three cells and for either value of the
  flag, \<^verbatim>\<open>minimax\<close> returns one of \<open>-10\<close>, \<open>0\<close>, \<open>10\<close>: neither infinity, with which
  the running score starts, is ever returned.
\<close>

theorem minimax_returns_score:
  "wf_board b \<Longrightarrow> 9 < d \<Longrightarrow>
   \<exists>v. minimax d b mx = Some (v, b) \<and> (v = Num (- 10) \<or> v = Num 0 \<or> v = Num 10)"
proof -
  assume w: "wf_board b" and "9 < d"
  with emptyCount_le[of b] have "emptyCount b < d" by simp
  then have "minimax d b mx = Some (mmv b mx, b)" by (rule minimax_eq_mmv)
  with mmv_isScore[OF w, of mx] show ?thesis by (simp add: isScore_def)
qed

theorem minimax_returns_score_witness:
  "wf_board [[MarkX, MarkO, MarkX], [MarkO, MarkO, MarkX], [Empty, MarkX, Empty]]
   \<and> (9::nat) < 10
   \<and> (\<exists>v. minimax 10 [[MarkX, MarkO, MarkX], [MarkO, MarkO, MarkX], [Empty, MarkX, Empty]] False
            = Some (v, [[MarkX, MarkO, MarkX], [MarkO, MarkO, MarkX], [Empty, MarkX, Empty]])
          \<and> (v = Num (- 10) \<or> v = Num 0 \<or> v = Num 10))
   \<and> fst (the (minimax 10 [[MarkX, MarkO, MarkX], [MarkO, MarkO, MarkX], [Empty, MarkX, Empty]] False))
       = Num (- 10)"
proof -
  let ?B = "[[MarkX, MarkO, MarkX], [MarkO, MarkO, MarkX], [Empty, MarkX, Empty]]"
  have w: "wf_board ?B" by (simp add: wf_board_def SIZE_def)
  have e: "fst (the (minimax 10 ?B False)) = Num (- 10)" by code_simp
  from w e minimax_returns_score[OF w, of 10 False] show ?thesis by simp
qed

section \<open>The move getBestMove picks\<close>

lemma bestStep_fold_char:
  fixes b :: board
  defines "f \<equiv> \<lambda>c. mmv (put b (fst c) (snd c) MarkO) False"
  assumes "fold (bestStep b) cs (bv, bm) = (bv', bm')"
  shows "(bv' = bv \<and> bm' = bm \<and> (\<forall>c\<in>set cs. \<not> num_less bv (f c)))
       \<or> (\<exists>pre c post. cs = pre @ c # post \<and> bm' = (int (fst c), int (snd c)) \<and> bv' = f c
            \<and> num_less bv (f c)
            \<and> (\<forall>x\<in>set pre. num_less (f x) (f c))
            \<and> (\<forall>x\<in>set post. \<not> num_less (f c) (f x)))"
  using assms(2)
proof (induction cs arbitrary: bv bm)
  case Nil
  then show ?case by simp
next
  case (Cons a cs)
  show ?case
  proof (cases "num_less bv (f a)")
    case True
    then have "bestStep b a (bv, bm) = (f a, (int (fst a), int (snd a)))"
      by (simp add: bestStep_def f_def)
    with Cons.prems have "fold (bestStep b) cs (f a, (int (fst a), int (snd a))) = (bv', bm')"
      by simp
    from Cons.IH[OF this] show ?thesis
    proof (elim disjE conjE exE)
      assume "bv' = f a" "bm' = (int (fst a), int (snd a))" "\<forall>c\<in>set cs. \<not> num_less (f a) (f c)"
      with True have "a # cs = [] @ a # cs \<and> bm' = (int (fst a), int (snd a)) \<and> bv' = f a
            \<and> num_less bv (f a)
            \<and> (\<forall>x\<in>set []. num_less (f x) (f a))
            \<and> (\<forall>x\<in>set cs. \<not> num_less (f a) (f x))" by simp
      then show ?thesis by blast
    next
      fix pre c post
      assume h: "cs = pre @ c # post" "bm' = (int (fst c), int (snd c))" "bv' = f c"
        "num_less (f a) (f c)" "\<forall>x\<in>set pre. num_less (f x) (f c)"
        "\<forall>x\<in>set post. \<not> num_less (f c) (f x)"
      from True h(4) have "num_less bv (f c)" by (rule num_less_trans)
      with h have "a # cs = (a # pre) @ c # post \<and> bm' = (int (fst c), int (snd c)) \<and> bv' = f c
            \<and> num_less bv (f c)
            \<and> (\<forall>x\<in>set (a # pre). num_less (f x) (f c))
            \<and> (\<forall>x\<in>set post. \<not> num_less (f c) (f x))" by simp
      then show ?thesis by blast
    qed
  next
    case False
    then have "bestStep b a (bv, bm) = (bv, bm)"
      by (simp add: bestStep_def f_def)
    with Cons.prems have "fold (bestStep b) cs (bv, bm) = (bv', bm')"
      by simp
    from Cons.IH[OF this] show ?thesis
    proof (elim disjE conjE exE)
      assume "bv' = bv" "bm' = bm" "\<forall>c\<in>set cs. \<not> num_less bv (f c)"
      with False show ?thesis by simp
    next
      fix pre c post
      assume h: "cs = pre @ c # post" "bm' = (int (fst c), int (snd c))" "bv' = f c"
        "num_less bv (f c)" "\<forall>x\<in>set pre. num_less (f x) (f c)"
        "\<forall>x\<in>set post. \<not> num_less (f c) (f x)"
      from False h(4) have "num_less (f a) (f c)" by (rule num_le_less_trans)
      with h have "a # cs = (a # pre) @ c # post \<and> bm' = (int (fst c), int (snd c)) \<and> bv' = f c
            \<and> num_less bv (f c)
            \<and> (\<forall>x\<in>set (a # pre). num_less (f x) (f c))
            \<and> (\<forall>x\<in>set post. \<not> num_less (f c) (f x))" by simp
      then show ?thesis by blast
    qed
  qed
qed

lemma bestMove_char:
  assumes w: "wf_board b" and ne: "emptyCells b \<noteq> []"
  shows "\<exists>pre c post. emptyCells b = pre @ c # post \<and> bestMove b = (int (fst c), int (snd c))
            \<and> isScore (mmv (put b (fst c) (snd c) MarkO) False)
            \<and> (\<forall>x\<in>set pre. num_less (mmv (put b (fst x) (snd x) MarkO) False)
                                      (mmv (put b (fst c) (snd c) MarkO) False))
            \<and> (\<forall>x\<in>set post. \<not> num_less (mmv (put b (fst c) (snd c) MarkO) False)
                                         (mmv (put b (fst x) (snd x) MarkO) False))"
proof -
  obtain bv' bm' where r: "fold (bestStep b) (emptyCells b) (NegInf, (- 1, - 1)) = (bv', bm')"
    by (cases "fold (bestStep b) (emptyCells b) (NegInf, (- 1, - 1))")
  have sc: "isScore (mmv (put b (fst c) (snd c) MarkO) False)" for c
    by (rule mmv_isScore) (rule wf_put[OF w])
  from ne obtain c0 where "c0 \<in> set (emptyCells b)" by (cases "emptyCells b") auto
  with isScore_gt_NegInf[OF sc[of c0]]
  have "\<not> (\<forall>c\<in>set (emptyCells b). \<not> num_less NegInf (mmv (put b (fst c) (snd c) MarkO) False))"
    by blast
  with bestStep_fold_char[OF r] r sc show ?thesis
    unfolding bestMove_def by auto
qed


lemma minimax_candidate:
  assumes "c \<in> set (emptyCells b)" "9 \<le> d"
  shows "minimax d (put b (fst c) (snd c) MarkO) False
           = Some (mmv (put b (fst c) (snd c) MarkO) False, put b (fst c) (snd c) MarkO)"
proof -
  from assms(1) have "(fst c, snd c) \<in> set coords" "cellAt b (fst c) (snd c) = Some Empty"
    by (auto dest: emptyCells_D)
  from emptyCount_put_less[OF this, of MarkO] emptyCount_le[of b] assms(2)
  have "emptyCount (put b (fst c) (snd c) MarkO) < d" by simp
  then show ?thesis by (rule minimax_eq_mmv)
qed

text \<open>
  Claim C3. On a board with an empty cell, \<^verbatim>\<open>getBestMove\<close> returns the earliest empty cell,
  in the row-major order of the loops, whose score is the maximum over all empty cells:
  every empty cell before it scores strictly less, no empty cell after it scores more.
  The running best starts at minus infinity, which every score exceeds, so the first
  candidate always replaces it; a later candidate with an equal score does not replace
  the one kept.
\<close>

theorem getBestMove_first_maximum:
  "wf_board b \<Longrightarrow> countMoves b < SIZE * SIZE \<Longrightarrow> 9 \<le> d \<Longrightarrow>
   \<exists>pre i j post v.
      emptyCells b = pre @ (i, j) # post
      \<and> getBestMove d b = Some ((int i, int j), b)
      \<and> minimax d (put b i j MarkO) False = Some (v, put b i j MarkO)
      \<and> num_less NegInf v
      \<and> (\<forall>(i', j')\<in>set pre. \<exists>v'.
             minimax d (put b i' j' MarkO) False = Some (v', put b i' j' MarkO) \<and> num_less v' v)
      \<and> (\<forall>(i', j')\<in>set post. \<exists>v'.
             minimax d (put b i' j' MarkO) False = Some (v', put b i' j' MarkO) \<and> \<not> num_less v v')"
proof -
  assume w: "wf_board b" and c: "countMoves b < SIZE * SIZE" and d: "9 \<le> d"
  from w c have ne: "emptyCells b \<noteq> []" by (simp add: wf_emptyCells_nonempty)
  from bestMove_char[OF w ne] obtain pre c post where
    e: "emptyCells b = pre @ c # post" and bm: "bestMove b = (int (fst c), int (snd c))"
    and sc: "isScore (mmv (put b (fst c) (snd c) MarkO) False)"
    and lt: "\<forall>x\<in>set pre. num_less (mmv (put b (fst x) (snd x) MarkO) False)
                                      (mmv (put b (fst c) (snd c) MarkO) False)"
    and ge: "\<forall>x\<in>set post. \<not> num_less (mmv (put b (fst c) (snd c) MarkO) False)
                                         (mmv (put b (fst x) (snd x) MarkO) False)"
    by blast
  from emptyCount_le[of b] d have "emptyCount b \<le> d" by simp
  then have g: "getBestMove d b = Some ((int (fst c), int (snd c)), b)"
    by (simp add: getBestMove_eq bm)
  have m: "x \<in> set (emptyCells b) \<Longrightarrow> minimax d (put b (fst x) (snd x) MarkO) False
           = Some (mmv (put b (fst x) (snd x) MarkO) False, put b (fst x) (snd x) MarkO)" for x
    using d by (intro minimax_candidate)
  have "emptyCells b = pre @ (fst c, snd c) # post
      \<and> getBestMove d b = Some ((int (fst c), int (snd c)), b)
      \<and> minimax d (put b (fst c) (snd c) MarkO) False
          = Some (mmv (put b (fst c) (snd c) MarkO) False, put b (fst c) (snd c) MarkO)
      \<and> num_less NegInf (mmv (put b (fst c) (snd c) MarkO) False)
      \<and> (\<forall>(i', j')\<in>set pre. \<exists>v'.
             minimax d (put b i' j' MarkO) False = Some (v', put b i' j' MarkO)
             \<and> num_less v' (mmv (put b (fst c) (snd c) MarkO) False))
      \<and> (\<forall>(i', j')\<in>set post. \<exists>v'.
             minimax d (put b i' j' MarkO) False = Some (v', put b i' j' MarkO)
             \<and> \<not> num_less (mmv (put b (fst c) (snd c) MarkO) False) v')"
    using e g m[of c] isScore_gt_NegInf[OF sc] lt ge m by (auto simp: e)
  then show ?thesis by blast
qed

theorem getBestMove_first_maximum_witness:
  "wf_board [[MarkX, MarkO, MarkX], [MarkO, MarkO, MarkX], [Empty, MarkX, Empty]]
   \<and> countMoves [[MarkX, MarkO, MarkX], [MarkO, MarkO, MarkX], [Empty, MarkX, Empty]] < SIZE * SIZE
   \<and> (9::nat) \<le> 10
   \<and> (\<exists>pre i j post v.
      emptyCells [[MarkX, MarkO, MarkX], [MarkO, MarkO, MarkX], [Empty, MarkX, Empty]]
        = pre @ (i, j) # post
      \<and> getBestMove 10 [[MarkX, MarkO, MarkX], [MarkO, MarkO, MarkX], [Empty, MarkX, Empty]]
        = Some ((int i, int j), [[MarkX, MarkO, MarkX], [MarkO, MarkO, MarkX], [Empty, MarkX, Empty]])
      \<and> minimax 10 (put [[MarkX, MarkO, MarkX], [MarkO, MarkO, MarkX], [Empty, MarkX, Empty]] i j MarkO) False
        = Some (v, put [[MarkX, MarkO, MarkX], [MarkO, MarkO, MarkX], [Empty, MarkX, Empty]] i j MarkO)
      \<and> num_less NegInf v)
   \<and> fst (the (getBestMove 10 [[MarkX, MarkO, MarkX], [MarkO, MarkO, MarkX], [Empty, MarkX, Empty]]))
       = (2, 2)"
proof -
  let ?B = "[[MarkX, MarkO, MarkX], [MarkO, MarkO, MarkX], [Empty, MarkX, Empty]]"
  have w: "wf_board ?B" by (simp add: wf_board_def SIZE_def)
  have c: "countMoves ?B < SIZE * SIZE" by (simp add: countMoves_def SIZE_def)
  have d: "(9::nat) \<le> 10" by simp
  have e: "fst (the (getBestMove 10 ?B)) = (2, 2)" by code_simp
  from getBestMove_first_maximum[OF w c d] obtain pre i j post v where
    "emptyCells ?B = pre @ (i, j) # post" "getBestMove 10 ?B = Some ((int i, int j), ?B)"
    "minimax 10 (put ?B i j MarkO) False = Some (v, put ?B i j MarkO)" "num_less NegInf v"
    by blast
  with w c e show ?thesis
    by (intro conjI exI[of _ pre] exI[of _ i] exI[of _ j] exI[of _ post] exI[of _ v]) simp_all
qed

text \<open>
  Claim C9. On a board with an empty cell \<^verbatim>\<open>getBestMove\<close> returns the indices of a cell
  inside the board that is empty, never the starting value \<open>(-1, -1)\<close>; the assignment
  of the opponent's mark that follows in the builder therefore succeeds, fills that empty
  cell and leaves every other cell as it was.
\<close>

theorem getBestMove_returns_empty_cell:
  "wf_board b \<Longrightarrow> countMoves b < SIZE * SIZE \<Longrightarrow> 9 \<le> d \<Longrightarrow>
   \<exists>i j. i < SIZE \<and> j < SIZE
      \<and> getBestMove d b = Some ((int i, int j), b)
      \<and> (int i, int j) \<noteq> (- 1, - 1)
      \<and> cellAt b i j = Some Empty
      \<and> assignCell b (int i) (int j) MarkO = Inr (put b i j MarkO)
      \<and> cellAt (put b i j MarkO) i j = Some MarkO
      \<and> (\<forall>i' j'. (i', j') \<noteq> (i, j) \<longrightarrow> cellAt (put b i j MarkO) i' j' = cellAt b i' j')"
proof -
  assume w: "wf_board b" and c: "countMoves b < SIZE * SIZE" and d: "9 \<le> d"
  from w c have ne: "emptyCells b \<noteq> []" by (simp add: wf_emptyCells_nonempty)
  from bestMove_char[OF w ne] obtain pre c post where
    e: "emptyCells b = pre @ c # post" and bm: "bestMove b = (int (fst c), int (snd c))"
    by blast
  from e have "c \<in> set (emptyCells b)" by simp
  then have co: "(fst c, snd c) \<in> set coords" and em: "cellAt b (fst c) (snd c) = Some Empty"
    by (auto dest: emptyCells_D)
  from emptyCount_le[of b] d have "emptyCount b \<le> d" by simp
  then have g: "getBestMove d b = Some ((int (fst c), int (snd c)), b)"
    by (simp add: getBestMove_eq bm)
  from em have a: "assignCell b (int (fst c)) (int (snd c)) MarkO = Inr (put b (fst c) (snd c) MarkO)"
    by (auto simp: assignCell_def cellAt_def split: if_splits)
  from co have "fst c < SIZE \<and> snd c < SIZE" by (simp only: in_coords)
  with g em a show ?thesis by (intro exI[of _ "fst c"] exI[of _ "snd c"]) (auto simp: cellAt_put)
qed

theorem getBestMove_returns_empty_cell_witness:
  "wf_board [[MarkX, MarkO, MarkX], [MarkO, MarkO, MarkX], [Empty, MarkX, Empty]]
   \<and> countMoves [[MarkX, MarkO, MarkX], [MarkO, MarkO, MarkX], [Empty, MarkX, Empty]] < SIZE * SIZE
   \<and> (9::nat) \<le> 10
   \<and> (\<exists>i j. i < SIZE \<and> j < SIZE
      \<and> getBestMove 10 [[MarkX, MarkO, MarkX], [MarkO, MarkO, MarkX], [Empty, MarkX, Empty]]
          = Some ((int i, int j), [[MarkX, MarkO, MarkX], [MarkO, MarkO, MarkX], [Empty, MarkX, Empty]])
      \<and> cellAt [[MarkX, MarkO, MarkX], [MarkO, MarkO, MarkX], [Empty, MarkX, Empty]] i j = Some Empty
      \<and> assignCell [[MarkX, MarkO, MarkX], [MarkO, MarkO, MarkX], [Empty, MarkX, Empty]] (int i) (int j) MarkO
          = Inr (put [[MarkX, MarkO, MarkX], [MarkO, MarkO, MarkX], [Empty, MarkX, Empty]] i j MarkO))
   \<and> assignCell [[MarkX, MarkO, MarkX], [MarkO, MarkO, MarkX], [Empty, MarkX, Empty]] 2 2 MarkO
       = Inr [[MarkX, MarkO, MarkX], [MarkO, MarkO, MarkX], [Empty, MarkX, MarkO]]"
proof -
  let ?B = "[[MarkX, MarkO, MarkX], [MarkO, MarkO, MarkX], [Empty, MarkX, Empty]]"
  have w: "wf_board ?B" by (simp add: wf_board_def SIZE_def)
  have c: "countMoves ?B < SIZE * SIZE" by (simp add: countMoves_def SIZE_def)
  have d: "(9::nat) \<le> 10" by simp
  have a: "assignCell ?B 2 2 MarkO = Inr [[MarkX, MarkO, MarkX], [MarkO, MarkO, MarkX], [Empty, MarkX, MarkO]]"
    by (simp add: assignCell_def put_def)
  from getBestMove_returns_empty_cell[OF w c d] obtain i j where
    "i < SIZE" "j < SIZE" "getBestMove 10 ?B = Some ((int i, int j), ?B)"
    "cellAt ?B i j = Some Empty" "assignCell ?B (int i) (int j) MarkO = Inr (put ?B i j MarkO)"
    by blast
  with w c a show ?thesis by (intro conjI exI[of _ i] exI[of _ j]) simp_all
qed

section \<open>The work loop of the builder\<close>

text \<open>
  The loop ends because every page put on the queue has fewer empty cells than the page
  it was found from. \<open>weight\<close> bounds the work a queued key can still cause.
\<close>

definition weight :: "globals \<Rightarrow> string \<Rightarrow> nat" where
  "weight g k = (case pages g k of None \<Rightarrow> 10 ^ 9 | Some r \<Rightarrow> 10 ^ emptyCount (board r))"

definition queueWeight :: "globals \<Rightarrow> string list \<Rightarrow> nat" where
  "queueWeight g q = sum_list (map (weight g) q)"

lemma copyBoard_id [simp]: "copyBoard b = b"
  by (simp add: copyBoard_def)

lemma getBestMove_frame: "getBestMove d b = Some (mv, b') \<Longrightarrow> b' = b"
  unfolding getBestMove_def by (rule bestLoop_frame)

lemma assignCell_Inr: "assignCell b r c m = Inr b' \<Longrightarrow> b' = put b (nat r) (nat c) m"
  by (auto simp: assignCell_def split: if_splits)

lemma nextBoard_emptyCount:
  assumes "nextBoard d b i j = Inr nb" "(i, j) \<in> set coords" "cellAt b i j = Some Empty"
  shows "emptyCount nb < emptyCount b"
proof -
  have lt: "emptyCount (put b i j MarkX) < emptyCount b"
    using assms(2,3) by (intro emptyCount_put_less) simp_all
  show ?thesis
  proof (cases "checkWinner (put b i j MarkX) = None \<and> countMoves (put b i j MarkX) < SIZE * SIZE")
    case True
    with assms(1) obtain r c b' where g: "getBestMove d (put b i j MarkX) = Some ((r, c), b')"
      and a: "assignCell b' r c MarkO = Inr nb"
      by (auto simp: nextBoard_def Let_def split: option.splits)
    from getBestMove_frame[OF g] assignCell_Inr[OF a]
    have "nb = put (put b i j MarkX) (nat r) (nat c) MarkO" by simp
    with emptyCount_put_le[of MarkO "put b i j MarkX" "nat r" "nat c"] lt show ?thesis by simp
  next
    case False
    with assms(1) have "nb = put b i j MarkX" by (auto simp: nextBoard_def Let_def)
    with lt show ?thesis by simp
  qed
qed

lemma weight_le: "weight g k \<le> 10 ^ 9"
proof (cases "pages g k")
  case None
  then show ?thesis by (simp add: weight_def)
next
  case (Some r)
  have "(10::nat) ^ emptyCount (board r) \<le> 10 ^ 9"
    by (rule power_increasing) (simp_all add: emptyCount_le)
  with Some show ?thesis by (simp add: weight_def)
qed

lemma weight_add_page:
  assumes "pages g newKey = None"
  shows "weight \<lparr>currentPage = n, pages = (pages g)(newKey \<mapsto> r)\<rparr> k \<le> weight g k"
proof (cases "k = newKey")
  case True
  with assms weight_le[of "\<lparr>currentPage = n, pages = (pages g)(newKey \<mapsto> r)\<rparr>" k]
  show ?thesis by (simp add: weight_def)
next
  case False
  then show ?thesis by (simp add: weight_def)
qed

lemma queueWeight_mono:
  "(\<And>k. weight g' k \<le> weight g k) \<Longrightarrow> queueWeight g' q \<le> queueWeight g q"
  unfolding queueWeight_def by (rule sum_list_mono) simp

lemma queueWeight_snoc: "queueWeight g (q @ [k]) = queueWeight g q + weight g k"
  by (simp add: queueWeight_def)

lemma expandLoop_pages_kept:
  "expandLoop d b cs (g, q, csv) = Inr (g', q', csv') \<Longrightarrow> pages g k = Some r \<Longrightarrow> pages g' k = Some r"
proof (induction cs arbitrary: g q csv)
  case Nil
  then show ?case by simp
next
  case (Cons c cs)
  obtain i j where c: "c = (i, j)" by (cases c)
  show ?case
  proof (cases "cellAt b i j = Some Empty")
    case True
    with Cons.prems(1) obtain nb where nb: "nextBoard d b i j = Inr nb"
      by (auto simp: c split: sum.splits)
    show ?thesis
    proof (cases "pages g (getBoardKey nb)")
      case None
      with Cons.prems(2) have "k \<noteq> getBoardKey nb" by auto
      with Cons.prems True nb None Cons.IH[of "\<lparr>currentPage = currentPage g + 1,
             pages = (pages g)(getBoardKey nb \<mapsto> \<lparr>page = currentPage g, board = nb, contentCsv = []\<rparr>)\<rparr>"]
      show ?thesis by (simp add: c Let_def)
    next
      case (Some r')
      with Cons.prems True nb Cons.IH[of g] show ?thesis by (simp add: c Let_def)
    qed
  next
    case False
    with Cons.prems Cons.IH show ?thesis by (simp add: c)
  qed
qed

lemma expandLoop_weight:
  assumes "expandLoop d b cs (g, q, csv) = Inr (g', q', csv')" "set cs \<subseteq> set coords"
  shows "queueWeight g' q' \<le> queueWeight g q
           + length (filter (\<lambda>(i, j). cellAt b i j = Some Empty) cs) * 10 ^ (emptyCount b - 1)"
  using assms
proof (induction cs arbitrary: g q csv)
  case Nil
  then show ?case by simp
next
  case (Cons c cs)
  obtain i j where c: "c = (i, j)" by (cases c)
  from Cons.prems(2) have sub: "set cs \<subseteq> set coords" and ic: "(i, j) \<in> set coords"
    by (simp_all add: c)
  show ?case
  proof (cases "cellAt b i j = Some Empty")
    case True
    with Cons.prems(1) obtain nb where nb: "nextBoard d b i j = Inr nb"
      by (auto simp: c split: sum.splits)
    from nextBoard_emptyCount[OF nb ic True] have lt: "emptyCount nb \<le> emptyCount b - 1" by simp
    show ?thesis
    proof (cases "pages g (getBoardKey nb)")
      case None
      let ?g1 = "\<lparr>currentPage = currentPage g + 1,
             pages = (pages g)(getBoardKey nb \<mapsto> \<lparr>page = currentPage g, board = nb, contentCsv = []\<rparr>)\<rparr>"
      from Cons.prems(1) True nb None
      have "expandLoop d b cs (?g1, q @ [getBoardKey nb], csv[3 + (i * SIZE + j) := JNum (currentPage g)])
              = Inr (g', q', csv')"
        by (simp add: c Let_def)
      from Cons.IH[OF this sub]
      have 1: "queueWeight g' q' \<le> queueWeight ?g1 (q @ [getBoardKey nb])
           + length (filter (\<lambda>(i, j). cellAt b i j = Some Empty) cs) * 10 ^ (emptyCount b - 1)" .
      have 2: "queueWeight ?g1 q \<le> queueWeight g q"
        by (rule queueWeight_mono) (rule weight_add_page[OF None])
      have "weight ?g1 (getBoardKey nb) = 10 ^ emptyCount nb" by (simp add: weight_def)
      also have "\<dots> \<le> 10 ^ (emptyCount b - 1)" using lt by (intro power_increasing) simp_all
      finally have 3: "weight ?g1 (getBoardKey nb) \<le> 10 ^ (emptyCount b - 1)" .
      from 1 2 3 True show ?thesis by (simp add: c queueWeight_snoc)
    next
      case (Some r')
      with Cons.prems(1) True nb
      have "expandLoop d b cs (g, q, csv[3 + (i * SIZE + j) := JNum (page r')]) = Inr (g', q', csv')"
        by (simp add: c Let_def)
      from Cons.IH[OF this sub] True show ?thesis by (simp add: c)
    qed
  next
    case False
    with Cons.prems(1) have "expandLoop d b cs (g, q, csv) = Inr (g', q', csv')" by (simp add: c)
    from Cons.IH[OF this sub] False show ?thesis by (simp add: c)
  qed
qed

lemma expand_bound: "emptyCount b * 10 ^ (emptyCount b - 1) < (10::nat) ^ emptyCount b"
proof (cases "emptyCount b")
  case 0
  then show ?thesis by simp
next
  case (Suc n)
  with emptyCount_le[of b] have "Suc n < 10" by simp
  then have "Suc n * 10 ^ n < 10 * (10::nat) ^ n" by (intro mult_strict_right_mono) simp_all
  with Suc show ?thesis by simp
qed

lemma weight_update_same:
  "pages g k = Some r \<Longrightarrow> board r' = board r
   \<Longrightarrow> weight (g\<lparr>pages := (pages g)(k \<mapsto> r')\<rparr>) k' = weight g k'"
  by (simp add: weight_def)

lemma processPage_weight:
  assumes "processPage d k (g, q) = Inr (g', q')"
  shows "queueWeight g' q' < queueWeight g (k # q)"
proof -
  from assms obtain rcd where rec: "pages g k = Some rcd"
    by (auto simp: processPage_def split: option.splits)
  let ?b = "board rcd"
  have wk: "weight g k = 10 ^ emptyCount ?b" using rec by (simp add: weight_def)
  from assms rec obtain g1 csv1 where
    r: "(if checkWinner ?b \<noteq> None then Inr (g, q, (csvInit rcd)[1 := JStr ''You lost!''])
         else if countMoves ?b = SIZE * SIZE then Inr (g, q, (csvInit rcd)[2 := JStr ''It's a draw!''])
         else expandLoop d ?b coords (g, q, csvInit rcd)) = Inr (g1, q', csv1)"
    and g': "g' = g1\<lparr>pages := (pages g1)(k \<mapsto> rcd\<lparr>contentCsv := csv1\<rparr>)\<rparr>"
    by (auto simp: processPage_def Let_def split: sum.splits)
  have kept: "pages g1 k = Some rcd"
    using r rec by (auto split: if_splits intro: expandLoop_pages_kept)
  have "queueWeight g1 q' \<le> queueWeight g q + emptyCount ?b * 10 ^ (emptyCount ?b - 1)"
  proof (cases "checkWinner ?b \<noteq> None \<or> countMoves ?b = SIZE * SIZE")
    case True
    with r show ?thesis by (auto split: if_splits)
  next
    case False
    with r have "expandLoop d ?b coords (g, q, csvInit rcd) = Inr (g1, q', csv1)" by simp
    from expandLoop_weight[OF this subset_refl] show ?thesis
      by (simp add: emptyCount_def emptyCells_def)
  qed
  moreover have "weight g' = weight g1"
    unfolding g' by (rule ext) (rule weight_update_same[OF kept], simp)
  then have "queueWeight g' q' = queueWeight g1 q'"
    by (simp add: queueWeight_def)
  ultimately show ?thesis using expand_bound[of ?b] wk by (simp add: queueWeight_def)
qed

text \<open>The loop of \<^verbatim>\<open>generatePaths\<close> ends, on every state.\<close>

termination generateLoop
proof (relation "measure (\<lambda>(d, g, q). queueWeight g q)")
  show "wf (measure (\<lambda>(d, g, q). queueWeight g q))" by simp
next
  fix d :: nat and g :: globals and queue :: "string list" and boardKey rest s
  assume "queue = boardKey # rest" "processPage d boardKey (g, rest) = Inr s"
  then show "((d, s), d, g, queue) \<in> measure (\<lambda>(d, g, q). queueWeight g q)"
    using processPage_weight[of d boardKey g rest "fst s" "snd s"] by (cases s) simp
qed

declare generateLoop.simps [simp del]

section \<open>The human never wins\<close>

text \<open>\<open>ge0 v\<close>: the score \<open>v\<close> is not below \<open>0\<close>, that is, not a win of the human.\<close>

definition ge0 :: "num \<Rightarrow> bool" where
  "ge0 v = (\<not> num_less v (Num 0))"

lemma fold_max_ge_init: "\<not> num_less (fold (\<lambda>c best. num_max best (f c)) cs best) best"
proof (induction cs arbitrary: best)
  case Nil
  then show ?case by simp
next
  case (Cons c cs)
  have "\<not> num_less (num_max best (f c)) best"
    by (auto simp: num_max_def dest: num_less_asym)
  with Cons.IH[of "num_max best (f c)"] show ?case
    by (auto dest: num_le_trans)
qed

lemma fold_max_ge_elem:
  "c \<in> set cs \<Longrightarrow> \<not> num_less (fold (\<lambda>c best. num_max best (f c)) cs best) (f c)"
proof (induction cs arbitrary: best)
  case Nil
  then show ?case by simp
next
  case (Cons a cs)
  show ?case
  proof (cases "c = a")
    case True
    have "\<not> num_less (num_max best (f a)) (f a)"
      by (auto simp: num_max_def)
    with fold_max_ge_init[of f cs "num_max best (f a)"] True show ?thesis
      by (auto dest: num_le_trans)
  next
    case False
    with Cons show ?thesis by simp
  qed
qed

lemma fold_max_attained:
  "fold (\<lambda>c best. num_max best (f c)) cs best = best
   \<or> (\<exists>c\<in>set cs. fold (\<lambda>c best. num_max best (f c)) cs best = f c)"
proof (induction cs arbitrary: best)
  case Nil
  then show ?case by simp
next
  case (Cons a cs)
  from Cons.IH[of "num_max best (f a)"] show ?case
    by (auto simp: num_max_def split: if_splits)
qed

lemma fold_min_le_init: "\<not> num_less best (fold (\<lambda>c best. num_min best (f c)) cs best)"
proof (induction cs arbitrary: best)
  case Nil
  then show ?case by simp
next
  case (Cons c cs)
  have "\<not> num_less best (num_min best (f c))"
    by (auto simp: num_min_def dest: num_less_asym)
  with Cons.IH[of "num_min best (f c)"] show ?case
    by (auto dest: num_le_trans)
qed

lemma fold_min_le_elem:
  "c \<in> set cs \<Longrightarrow> \<not> num_less (f c) (fold (\<lambda>c best. num_min best (f c)) cs best)"
proof (induction cs arbitrary: best)
  case Nil
  then show ?case by simp
next
  case (Cons a cs)
  show ?case
  proof (cases "c = a")
    case True
    have "\<not> num_less (f a) (num_min best (f a))"
      by (auto simp: num_min_def)
    with fold_min_le_init[of "num_min best (f a)" f cs] True show ?thesis
      by (auto dest: num_le_trans)
  next
    case False
    with Cons show ?thesis by simp
  qed
qed

lemma fold_min_ge:
  "(\<And>c. c \<in> set cs \<Longrightarrow> \<not> num_less (f c) z) \<Longrightarrow> \<not> num_less best z
   \<Longrightarrow> \<not> num_less (fold (\<lambda>c best. num_min best (f c)) cs best) z"
proof (induction cs arbitrary: best)
  case Nil
  then show ?case by simp
next
  case (Cons a cs)
  have "\<not> num_less (num_min best (f a)) z"
    using Cons.prems by (auto simp: num_min_def)
  with Cons.IH[of "num_min best (f a)"] Cons.prems(1) show ?case by simp
qed

lemma scanLines_mark: "scanLines ls = Some m \<Longrightarrow> m = MarkX \<or> m = MarkO"
  by (induction ls) (auto split: if_splits)

lemma checkWinner_cases:
  "checkWinner b = None \<or> checkWinner b = Some MarkX \<or> checkWinner b = Some MarkO"
  using scanLines_mark[of "winLines b"] by (cases "checkWinner b") (auto simp: checkWinner_def)

lemma evaluateBoard_0: "(evaluateBoard b = Num 0) = (checkWinner b = None)"
  using checkWinner_cases[of b] by (auto simp: evaluateBoard_def Let_def)

lemma mmv_winner: "checkWinner b = Some m \<Longrightarrow> mmv b mx = (if m = MarkO then Num 10 else Num (- 10))"
  using checkWinner_cases[of b]
  by (subst mmv.simps) (auto simp: evaluateBoard_def Let_def)

lemma mmv_full: "checkWinner b = None \<Longrightarrow> countMoves b = SIZE * SIZE \<Longrightarrow> mmv b mx = Num 0"
  by (subst mmv.simps) (simp add: evaluateBoard_0)

lemma mmv_max:
  "checkWinner b = None \<Longrightarrow> countMoves b \<noteq> SIZE * SIZE \<Longrightarrow>
   mmv b True = fold (\<lambda>c best. num_max best (mmv (put b (fst c) (snd c) MarkO) False)) (emptyCells b) NegInf"
  by (subst mmv.simps) (simp add: evaluateBoard_0)

lemma mmv_min:
  "checkWinner b = None \<Longrightarrow> countMoves b \<noteq> SIZE * SIZE \<Longrightarrow>
   mmv b False = fold (\<lambda>c best. num_min best (mmv (put b (fst c) (snd c) MarkX) True)) (emptyCells b) PosInf"
  by (subst mmv.simps) (simp add: evaluateBoard_0)

lemma mmv_terminal:
  "checkWinner b \<noteq> None \<or> countMoves b = SIZE * SIZE \<Longrightarrow> mmv b mx = mmv b mx'"
  by (cases "checkWinner b") (auto simp: mmv_winner mmv_full)

lemma ge0_no_human_win: "ge0 (mmv b mx) \<Longrightarrow> checkWinner b \<noteq> Some MarkX"
  by (auto simp: ge0_def mmv_winner)

text \<open>After the human's move: the value does not drop below that of the page.\<close>

lemma human_move_ge0:
  assumes "checkWinner b = None" "countMoves b \<noteq> SIZE * SIZE" "ge0 (mmv b False)"
    and "c \<in> set (emptyCells b)"
  shows "ge0 (mmv (put b (fst c) (snd c) MarkX) True)"
proof -
  have "\<not> num_less (mmv (put b (fst c) (snd c) MarkX) True) (mmv b False)"
    unfolding mmv_min[OF assms(1,2)] using assms(4) by (rule fold_min_le_elem)
  with assms(3) show ?thesis unfolding ge0_def by (blast dest: num_le_trans)
qed

text \<open>After the reply of \<^verbatim>\<open>getBestMove\<close>: the value is that of the position before it.\<close>

lemma reply_ge0:
  assumes w: "wf_board b" and nw: "checkWinner b = None" and nf: "countMoves b \<noteq> SIZE * SIZE"
    and v: "ge0 (mmv b True)"
  shows "\<exists>i j. (i, j) \<in> set (emptyCells b) \<and> bestMove b = (int i, int j)
           \<and> ge0 (mmv (put b i j MarkO) False)"
proof -
  let ?f = "\<lambda>c. mmv (put b (fst c) (snd c) MarkO) False"
  from w nf have ne: "emptyCells b \<noteq> []" by (rule wf_emptyCells_nonempty)
  from bestMove_char[OF w ne] obtain pre c post where
    e: "emptyCells b = pre @ c # post" and bm: "bestMove b = (int (fst c), int (snd c))"
    and lt: "\<forall>x\<in>set pre. num_less (?f x) (?f c)"
    and ge: "\<forall>x\<in>set post. \<not> num_less (?f c) (?f x)"
    by blast
  have top: "\<not> num_less (?f c) (?f x)" if "x \<in> set (emptyCells b)" for x
    using that lt ge unfolding e by (auto dest: num_less_asym)
  have "isScore (mmv b True)" by (rule mmv_isScore[OF w])
  then have "mmv b True \<noteq> NegInf" by (auto simp: isScore_def)
  with fold_max_attained[of ?f "emptyCells b" NegInf] mmv_max[OF nw nf]
  obtain x where "x \<in> set (emptyCells b)" "mmv b True = ?f x" by auto
  with top[of x] v have "ge0 (?f c)" unfolding ge0_def by (auto dest: num_le_trans)
  with e bm show ?thesis by (intro exI[of _ "fst c"] exI[of _ "snd c"]) simp
qed

lemma nextBoard_ge0:
  assumes w: "wf_board b" and nw: "checkWinner b = None" and nf: "countMoves b \<noteq> SIZE * SIZE"
    and v: "ge0 (mmv b False)" and c: "(i, j) \<in> set coords" "cellAt b i j = Some Empty"
    and d: "9 \<le> d"
  shows "\<exists>nb. nextBoard d b i j = Inr nb \<and> wf_board nb \<and> ge0 (mmv nb False)"
proof -
  let ?b1 = "put b i j MarkX"
  from c have "(i, j) \<in> set (emptyCells b)" by (simp add: emptyCells_def)
  from human_move_ge0[OF nw nf v this] have v1: "ge0 (mmv ?b1 True)" by simp
  have w1: "wf_board ?b1" by (rule wf_put[OF w])
  show ?thesis
  proof (cases "checkWinner ?b1 = None \<and> countMoves ?b1 < SIZE * SIZE")
    case True
    then have nw1: "checkWinner ?b1 = None" and nf1: "countMoves ?b1 \<noteq> SIZE * SIZE" by simp_all
    from reply_ge0[OF w1 nw1 nf1 v1] obtain i' j' where
      e: "(i', j') \<in> set (emptyCells ?b1)" and bm: "bestMove ?b1 = (int i', int j')"
      and v2: "ge0 (mmv (put ?b1 i' j' MarkO) False)" by blast
    from emptyCount_le[of ?b1] d have "emptyCount ?b1 \<le> d" by simp
    then have g: "getBestMove d ?b1 = Some ((int i', int j'), ?b1)"
      by (simp add: getBestMove_eq bm)
    from e have "cellAt ?b1 i' j' = Some Empty" by (auto dest: emptyCells_D)
    then have a: "assignCell ?b1 (int i') (int j') MarkO = Inr (put ?b1 i' j' MarkO)"
      by (auto simp: assignCell_def cellAt_def split: if_splits)
    from True g a have "nextBoard d b i j = Inr (put ?b1 i' j' MarkO)"
      by (simp add: nextBoard_def Let_def)
    with v2 wf_put[OF w1] show ?thesis by simp
  next
    case False
    then have t: "checkWinner ?b1 \<noteq> None \<or> countMoves ?b1 = SIZE * SIZE"
      using wf_counts[OF w1] by (auto simp: SIZE_def)
    from False have "nextBoard d b i j = Inr ?b1" by (auto simp: nextBoard_def Let_def)
    with w1 v1 mmv_terminal[OF t, of False True] show ?thesis by simp
  qed
qed

subsection \<open>The invariant of the page graph\<close>

definition goodBoard :: "board \<Rightarrow> bool" where
  "goodBoard b = (wf_board b \<and> ge0 (mmv b False))"

definition goodPages :: "globals \<Rightarrow> bool" where
  "goodPages g = (\<forall>k r. pages g k = Some r \<longrightarrow> goodBoard (board r))"

definition keeps :: "globals \<Rightarrow> globals \<Rightarrow> bool" where
  "keeps g g' = (currentPage g \<le> currentPage g'
     \<and> (\<forall>k r. pages g k = Some r \<longrightarrow> (\<exists>r'. pages g' k = Some r' \<and> page r' = page r \<and> board r' = board r)))"

lemma keeps_refl: "keeps g g"
  by (simp add: keeps_def)

lemma keeps_trans: "keeps g g' \<Longrightarrow> keeps g' g'' \<Longrightarrow> keeps g g''"
  unfolding keeps_def by (metis le_trans)


lemma expandLoop_good:
  assumes b: "goodBoard b" "checkWinner b = None" "countMoves b \<noteq> SIZE * SIZE" and d: "9 \<le> d"
  shows "set cs \<subseteq> set coords \<Longrightarrow> goodPages g \<Longrightarrow> set q \<subseteq> dom (pages g) \<Longrightarrow>
    \<exists>g' q' csv'. expandLoop d b cs (g, q, csv) = Inr (g', q', csv')
       \<and> goodPages g' \<and> set q' \<subseteq> dom (pages g') \<and> keeps g g'"
proof (induction cs arbitrary: g q csv)
  case Nil
  then show ?case by (simp add: keeps_refl)
next
  case (Cons c cs)
  obtain i j where c: "c = (i, j)" by (cases c)
  from Cons.prems(1) have sub: "set cs \<subseteq> set coords" and ic: "(i, j) \<in> set coords"
    by (simp_all add: c)
  show ?case
  proof (cases "cellAt b i j = Some Empty")
    case True
    from b(1) have "wf_board b" "ge0 (mmv b False)" by (simp_all add: goodBoard_def)
    from nextBoard_ge0[OF this(1) b(2,3) this(2) ic True d] obtain nb where
      nb: "nextBoard d b i j = Inr nb" and gnb: "goodBoard nb" by (auto simp: goodBoard_def)
    show ?thesis
    proof (cases "pages g (getBoardKey nb)")
      case None
      let ?g1 = "\<lparr>currentPage = currentPage g + 1,
             pages = (pages g)(getBoardKey nb \<mapsto> \<lparr>page = currentPage g, board = nb, contentCsv = []\<rparr>)\<rparr>"
      have g1: "goodPages ?g1" using Cons.prems(2) gnb by (auto simp: goodPages_def)
      have q1: "set (q @ [getBoardKey nb]) \<subseteq> dom (pages ?g1)" using Cons.prems(3) by auto
      have k1: "keeps g ?g1" using None by (auto simp: keeps_def)
      from Cons.IH[OF sub g1 q1, of "csv[3 + (i * SIZE + j) := JNum (currentPage g)]"]
      obtain g' q' csv' where
        "expandLoop d b cs (?g1, q @ [getBoardKey nb], csv[3 + (i * SIZE + j) := JNum (currentPage g)])
           = Inr (g', q', csv')" "goodPages g'" "set q' \<subseteq> dom (pages g')" "keeps ?g1 g'"
        by blast
      with True nb None keeps_trans[OF k1] show ?thesis by (simp add: c Let_def)
    next
      case (Some r')
      from Cons.IH[OF sub Cons.prems(2,3), of "csv[3 + (i * SIZE + j) := JNum (page r')]"]
      show ?thesis using True nb Some by (simp add: c Let_def)
    qed
  next
    case False
    with Cons.IH[OF sub Cons.prems(2,3), of csv] show ?thesis by (simp add: c)
  qed
qed

lemma processPage_good:
  assumes "goodPages g" "k \<in> dom (pages g)" "set q \<subseteq> dom (pages g)" "9 \<le> d"
  shows "\<exists>g' q'. processPage d k (g, q) = Inr (g', q')
       \<and> goodPages g' \<and> set q' \<subseteq> dom (pages g') \<and> keeps g g'"
proof -
  from assms(2) obtain rcd where rec: "pages g k = Some rcd" by auto
  with assms(1) have gb: "goodBoard (board rcd)" by (auto simp: goodPages_def)
  let ?b = "board rcd"
  have fin: "goodPages (g1\<lparr>pages := (pages g1)(k \<mapsto> rcd\<lparr>contentCsv := csv1\<rparr>)\<rparr>)
          \<and> set q1 \<subseteq> dom (pages (g1\<lparr>pages := (pages g1)(k \<mapsto> rcd\<lparr>contentCsv := csv1\<rparr>)\<rparr>))
          \<and> keeps g (g1\<lparr>pages := (pages g1)(k \<mapsto> rcd\<lparr>contentCsv := csv1\<rparr>)\<rparr>)"
    if "goodPages g1" "set q1 \<subseteq> dom (pages g1)" "keeps g g1" for g1 q1 csv1
  proof (intro conjI)
    show "goodPages (g1\<lparr>pages := (pages g1)(k \<mapsto> rcd\<lparr>contentCsv := csv1\<rparr>)\<rparr>)"
      using that(1) gb by (auto simp: goodPages_def)
    show "set q1 \<subseteq> dom (pages (g1\<lparr>pages := (pages g1)(k \<mapsto> rcd\<lparr>contentCsv := csv1\<rparr>)\<rparr>))"
      using that(2) by auto
    show "keeps g (g1\<lparr>pages := (pages g1)(k \<mapsto> rcd\<lparr>contentCsv := csv1\<rparr>)\<rparr>)"
      using that(3) rec by (auto simp: keeps_def)
  qed
  show ?thesis
  proof (cases "checkWinner ?b \<noteq> None \<or> countMoves ?b = SIZE * SIZE")
    case True
    with rec fin[OF assms(1,3) keeps_refl] show ?thesis
      by (auto simp: processPage_def Let_def)
  next
    case False
    then have nw: "checkWinner ?b = None" and nf: "countMoves ?b \<noteq> SIZE * SIZE" by simp_all
    from expandLoop_good[OF gb nw nf assms(4) subset_refl assms(1,3), of "csvInit rcd"]
    obtain g1 q1 csv1 where e: "expandLoop d ?b coords (g, q, csvInit rcd) = Inr (g1, q1, csv1)"
      and "goodPages g1" "set q1 \<subseteq> dom (pages g1)" "keeps g g1" by blast
    from fin[OF this(2,3,4), of csv1] e rec nw nf show ?thesis
      by (simp add: processPage_def Let_def)
  qed
qed

lemma generateLoop_good:
  "goodPages g \<Longrightarrow> set q \<subseteq> dom (pages g) \<Longrightarrow> 9 \<le> d \<Longrightarrow>
   \<exists>g'. generateLoop d (g, q) = Inr g' \<and> goodPages g' \<and> keeps g g'"
proof (induction d "(g, q)" arbitrary: g q rule: generateLoop.induct)
  case (1 d g q)
  show ?case
  proof (cases q)
    case Nil
    with "1.prems" show ?thesis by (subst generateLoop.simps) (simp add: keeps_refl)
  next
    case (Cons k rest)
    with "1.prems" have "k \<in> dom (pages g)" "set rest \<subseteq> dom (pages g)" by auto
    from processPage_good[OF "1.prems"(1) this "1.prems"(3)] obtain g1 q1 where
      p: "processPage d k (g, rest) = Inr (g1, q1)" and g1: "goodPages g1"
      and q1: "set q1 \<subseteq> dom (pages g1)" and k1: "keeps g g1" by blast
    from "1.hyps"[OF Cons p g1 q1 "1.prems"(3)] obtain g' where
      "generateLoop d (g1, q1) = Inr g'" "goodPages g'" "keeps g1 g'" by blast
    with p Cons keeps_trans[OF k1] show ?thesis
      by (subst generateLoop.simps) auto
  qed
qed

subsection \<open>The empty board is not lost for the opponent\<close>

text \<open>
  A checkable certificate that the opponent can avoid losing: with the human to move
  every move must keep the certificate, with the opponent to move one move must, tried in
  the order \<open>replyOrder\<close>. \<open>hold_sound\<close> relates it to the value of the search.
\<close>

definition replyOrder :: "(nat \<times> nat) list" where
  "replyOrder = [(1, 1), (0, 0), (0, 2), (2, 0), (2, 2), (0, 1), (1, 0), (1, 2), (2, 1)]"

primrec allCells :: "(nat \<times> nat \<Rightarrow> bool) \<Rightarrow> (nat \<times> nat) list \<Rightarrow> bool" where
  "allCells P [] = True"
| "allCells P (c # cs) = (if P c then allCells P cs else False)"

primrec anyCells :: "(nat \<times> nat \<Rightarrow> bool) \<Rightarrow> (nat \<times> nat) list \<Rightarrow> bool" where
  "anyCells P [] = False"
| "anyCells P (c # cs) = (if P c then True else anyCells P cs)"

primrec hold :: "nat \<Rightarrow> bool \<Rightarrow> board \<Rightarrow> bool" where
  "hold 0 xturn b = False"
| "hold (Suc n) xturn b =
     (case checkWinner b of
        Some m \<Rightarrow> m = MarkO
      | None \<Rightarrow>
          if countMoves b = SIZE * SIZE then True
          else if xturn then
            allCells (\<lambda>c. if cellAt b (fst c) (snd c) = Some Empty
                           then hold n False (put b (fst c) (snd c) MarkX) else True) coords
          else
            anyCells (\<lambda>c. if cellAt b (fst c) (snd c) = Some Empty
                           then hold n True (put b (fst c) (snd c) MarkO) else False) replyOrder)"

lemma allCells_iff: "allCells P cs = (\<forall>c\<in>set cs. P c)"
  by (induction cs) auto

lemma anyCells_iff: "anyCells P cs = (\<exists>c\<in>set cs. P c)"
  by (induction cs) auto

lemma replyOrder_coords: "set replyOrder = set coords"
  by (simp add: replyOrder_def coords_eq) blast

lemma hold_sound: "hold n xturn b \<Longrightarrow> wf_board b \<Longrightarrow> ge0 (mmv b (\<not> xturn))"
proof (induction n arbitrary: xturn b)
  case 0
  then show ?case by simp
next
  case (Suc n)
  show ?case
  proof (cases "checkWinner b")
    case (Some m)
    with Suc.prems(1) have "m = MarkO" by simp
    with Some show ?thesis by (simp add: mmv_winner ge0_def)
  next
    case None
    show ?thesis
    proof (cases "countMoves b = SIZE * SIZE")
      case True
      with None show ?thesis by (simp add: mmv_full ge0_def)
    next
      case nf: False
      show ?thesis
      proof (cases xturn)
        case True
        with Suc.prems(1) None nf
        have a: "\<forall>c\<in>set coords. cellAt b (fst c) (snd c) = Some Empty
                  \<longrightarrow> hold n False (put b (fst c) (snd c) MarkX)"
          by (auto simp: allCells_iff)
        have "\<not> num_less (mmv (put b (fst c) (snd c) MarkX) True) (Num 0)"
          if "c \<in> set (emptyCells b)" for c
        proof -
          from that a have "hold n False (put b (fst c) (snd c) MarkX)"
            by (auto dest: emptyCells_D)
          from Suc.IH[OF this wf_put[OF Suc.prems(2)]] show ?thesis by (simp add: ge0_def)
        qed
        then have "\<not> num_less (fold (\<lambda>c best. num_min best (mmv (put b (fst c) (snd c) MarkX) True))
                     (emptyCells b) PosInf) (Num 0)"
          by (intro fold_min_ge) simp_all
        with True show ?thesis by (simp add: mmv_min[OF None nf] ge0_def)
      next
        case False
        with Suc.prems(1) None nf obtain c where c: "c \<in> set replyOrder"
          "cellAt b (fst c) (snd c) = Some Empty" "hold n True (put b (fst c) (snd c) MarkO)"
          by (auto simp: anyCells_iff split: if_splits)
        from c(1,2) have e: "c \<in> set (emptyCells b)"
          by (auto simp: emptyCells_def replyOrder_coords)
        from Suc.IH[OF c(3) wf_put[OF Suc.prems(2)]]
        have "\<not> num_less (mmv (put b (fst c) (snd c) MarkO) False) (Num 0)" by (simp add: ge0_def)
        with fold_max_ge_elem[OF e, of "\<lambda>c. mmv (put b (fst c) (snd c) MarkO) False" NegInf]
        have "\<not> num_less (fold (\<lambda>c best. num_max best (mmv (put b (fst c) (snd c) MarkO) False))
                     (emptyCells b) NegInf) (Num 0)"
          by (blast dest: num_le_trans)
        with False show ?thesis by (simp add: mmv_max[OF None nf] ge0_def)
      qed
    qed
  qed
qed

lemma hold_initialBoard: "hold 10 True initialBoard"
  by code_simp

lemma wf_initialBoard: "wf_board initialBoard"
  by (simp add: initialBoard_def wf_board_def list_all_iff)

lemma goodBoard_initialBoard: "goodBoard initialBoard"
  using hold_sound[OF hold_initialBoard wf_initialBoard] wf_initialBoard
  by (simp add: goodBoard_def)

lemma generatePaths_good:
  assumes "goodPages g" "9 \<le> d"
  shows "\<exists>g'. generatePaths d g = Inr g' \<and> goodPages g'
     \<and> (\<exists>r. pages g' (getBoardKey initialBoard) = Some r \<and> page r = currentPage g \<and> board r = initialBoard)
     \<and> (\<forall>k r. pages g k = Some r \<longrightarrow> k \<noteq> getBoardKey initialBoard
           \<longrightarrow> (\<exists>r'. pages g' k = Some r' \<and> page r' = page r \<and> board r' = board r))
     \<and> currentPage g < currentPage g'"
proof -
  let ?k = "getBoardKey initialBoard"
  let ?g1 = "\<lparr>currentPage = currentPage g + 1,
       pages = (pages g)(?k \<mapsto> \<lparr>page = currentPage g, board = initialBoard, contentCsv = []\<rparr>)\<rparr>"
  have g1: "goodPages ?g1" using assms(1) goodBoard_initialBoard by (auto simp: goodPages_def)
  have "set [?k] \<subseteq> dom (pages ?g1)" by simp
  from generateLoop_good[OF g1 this assms(2)] obtain g' where
    r: "generateLoop d (?g1, [?k]) = Inr g'" and g': "goodPages g'" and k: "keeps ?g1 g'" by blast
  from r have "generatePaths d g = Inr g'" by (simp add: generatePaths_def Let_def)
  moreover have "\<exists>r. pages g' ?k = Some r \<and> page r = currentPage g \<and> board r = initialBoard"
  proof -
    have "pages ?g1 ?k = Some \<lparr>page = currentPage g, board = initialBoard, contentCsv = []\<rparr>"
      by simp
    with k have "\<exists>r'. pages g' ?k = Some r'
        \<and> page r' = page \<lparr>page = currentPage g, board = initialBoard, contentCsv = []\<rparr>
        \<and> board r' = board \<lparr>page = currentPage g, board = initialBoard, contentCsv = []\<rparr>"
      unfolding keeps_def by blast
    then show ?thesis by simp
  qed
  moreover from k have "\<forall>k r. pages g k = Some r \<longrightarrow> k \<noteq> ?k
           \<longrightarrow> (\<exists>r'. pages g' k = Some r' \<and> page r' = page r \<and> board r' = board r)"
    by (auto simp: keeps_def)
  moreover from k have "currentPage g < currentPage g'" by (simp add: keeps_def)
  ultimately show ?thesis using g' by blast
qed

lemma goodPages_globals0: "goodPages globals0"
  by (simp add: goodPages_def globals0_def)

text \<open>
  Claim C1. \<^verbatim>\<open>generatePaths\<close>, started from the fresh module state, returns a page graph
  (holding the page of the empty board) in which no page's board has the human's mark
  \<^verbatim>\<open>X\<close> as its winner: \<^verbatim>\<open>checkWinner\<close> gives \<^verbatim>\<open>O\<close> or no winner on every page, so a line
  of play ends only in a loss of the human or in a draw.
\<close>

theorem human_never_wins:
  "9 \<le> d \<Longrightarrow>
   \<exists>g. generatePaths d globals0 = Inr g
     \<and> (\<exists>r. pages g (getBoardKey initialBoard) = Some r \<and> board r = initialBoard)
     \<and> (\<forall>k r. pages g k = Some r \<longrightarrow>
           checkWinner (board r) \<noteq> Some MarkX
           \<and> (checkWinner (board r) = Some MarkO \<or> checkWinner (board r) = None))"
proof -
  assume d: "9 \<le> d"
  from generatePaths_good[OF goodPages_globals0 d] obtain g where
    r: "generatePaths d globals0 = Inr g" and g: "goodPages g"
    and i: "\<exists>r. pages g (getBoardKey initialBoard) = Some r \<and> page r = currentPage globals0 \<and> board r = initialBoard"
    by blast
  have "checkWinner (board r) \<noteq> Some MarkX
           \<and> (checkWinner (board r) = Some MarkO \<or> checkWinner (board r) = None)"
    if "pages g k = Some r" for k r
  proof -
    from g that have "ge0 (mmv (board r) False)" by (auto simp: goodPages_def goodBoard_def)
    from ge0_no_human_win[OF this] checkWinner_cases[of "board r"] show ?thesis by auto
  qed
  with r i show ?thesis by blast
qed

theorem human_never_wins_witness:
  "\<exists>g. generatePaths 10 globals0 = Inr g
     \<and> (\<exists>r. pages g (getBoardKey initialBoard) = Some r \<and> board r = initialBoard
            \<and> checkWinner (board r) \<noteq> Some MarkX)"
proof -
  have "(9::nat) \<le> 10" by simp
  from human_never_wins[OF this] show ?thesis by blast
qed

section \<open>Page ids\<close>

text \<open>
  \<open>pageOf g k\<close> is \<^verbatim>\<open>pages[k].page\<close>. \<open>discovered g ks\<close>: \<open>ks\<close> lists the keys of \<^verbatim>\<open>pages\<close>,
  each once, and their page ids are \<open>1, 2, \<dots>\<close> in this order, up to \<^verbatim>\<open>currentPage - 1\<close>.
\<close>

definition pageOf :: "globals \<Rightarrow> string \<Rightarrow> nat" where
  "pageOf g k = (case pages g k of Some r \<Rightarrow> page r | None \<Rightarrow> 0)"

definition discovered :: "globals \<Rightarrow> string list \<Rightarrow> bool" where
  "discovered g ks =
     (1 \<le> currentPage g \<and> distinct ks \<and> set ks = dom (pages g)
      \<and> map (pageOf g) ks = [1..<currentPage g])"

text \<open>The state in which \<^verbatim>\<open>generatePaths\<close> enters its loop, and the states the loop passes through.\<close>

definition startState :: "globals \<Rightarrow> globals \<times> string list" where
  "startState g =
     (\<lparr>currentPage = currentPage g + 1,
       pages = (pages g)(getBoardKey initialBoard \<mapsto>
                 \<lparr>page = currentPage g, board = initialBoard, contentCsv = []\<rparr>)\<rparr>,
      [getBoardKey initialBoard])"

inductive loopState :: "nat \<Rightarrow> globals \<times> string list \<Rightarrow> globals \<times> string list \<Rightarrow> bool"
  for d :: nat and s0 :: "globals \<times> string list" where
  loop_start: "loopState d s0 s0"
| loop_iter: "loopState d s0 (g, k # q) \<Longrightarrow> processPage d k (g, q) = Inr s' \<Longrightarrow> loopState d s0 s'"

lemma generatePaths_startState: "generatePaths d g = generateLoop d (startState g)"
  by (simp add: generatePaths_def startState_def Let_def)

lemma discovered_length: "discovered g ks \<Longrightarrow> Suc (length ks) = currentPage g"
proof -
  assume a: "discovered g ks"
  then have m: "map (pageOf g) ks = [1..<currentPage g]" and c: "1 \<le> currentPage g"
    by (simp_all add: discovered_def)
  from m have "length ks = currentPage g - 1" by (metis length_map length_upt)
  with c show ?thesis by simp
qed

lemma discovered_add:
  assumes "discovered g ks" "pages g newKey = None"
  shows "discovered \<lparr>currentPage = currentPage g + 1,
       pages = (pages g)(newKey \<mapsto> \<lparr>page = currentPage g, board = nb, contentCsv = []\<rparr>)\<rparr> (ks @ [newKey])"
proof -
  from assms have n: "newKey \<notin> set ks" by (auto simp: discovered_def)
  then have "map (pageOf \<lparr>currentPage = currentPage g + 1,
       pages = (pages g)(newKey \<mapsto> \<lparr>page = currentPage g, board = nb, contentCsv = []\<rparr>)\<rparr>) ks
     = map (pageOf g) ks"
    by (intro map_cong) (auto simp: pageOf_def)
  with assms n show ?thesis by (auto simp: discovered_def pageOf_def)
qed

lemma discovered_update:
  assumes "discovered g ks" "pages g k = Some r" "page r' = page r"
  shows "discovered (g\<lparr>pages := (pages g)(k \<mapsto> r')\<rparr>) ks"
proof -
  have "map (pageOf (g\<lparr>pages := (pages g)(k \<mapsto> r')\<rparr>)) ks = map (pageOf g) ks"
    using assms(2,3) by (intro map_cong) (auto simp: pageOf_def)
  with assms show ?thesis by (auto simp: discovered_def)
qed

lemma expandLoop_ids:
  "discovered g ks \<Longrightarrow> expandLoop d b cs (g, q, csv) = Inr (g', q', csv')
   \<Longrightarrow> \<exists>news. q' = q @ news \<and> discovered g' (ks @ news)"
proof (induction cs arbitrary: g q csv ks)
  case Nil
  then show ?case by simp
next
  case (Cons c cs)
  obtain i j where c: "c = (i, j)" by (cases c)
  show ?case
  proof (cases "cellAt b i j = Some Empty")
    case True
    with Cons.prems(2) obtain nb where nb: "nextBoard d b i j = Inr nb"
      by (auto simp: c split: sum.splits)
    show ?thesis
    proof (cases "pages g (getBoardKey nb)")
      case None
      let ?g1 = "\<lparr>currentPage = currentPage g + 1,
             pages = (pages g)(getBoardKey nb \<mapsto> \<lparr>page = currentPage g, board = nb, contentCsv = []\<rparr>)\<rparr>"
      from Cons.prems(2) True nb None
      have e: "expandLoop d b cs (?g1, q @ [getBoardKey nb], csv[3 + (i * SIZE + j) := JNum (currentPage g)])
              = Inr (g', q', csv')"
        by (simp add: c Let_def)
      from Cons.IH[OF discovered_add[OF Cons.prems(1) None] e] obtain news where
        "q' = (q @ [getBoardKey nb]) @ news" "discovered g' ((ks @ [getBoardKey nb]) @ news)" by blast
      then have "q' = q @ (getBoardKey nb # news) \<and> discovered g' (ks @ (getBoardKey nb # news))"
        by simp
      then show ?thesis by blast
    next
      case (Some r')
      with Cons.prems(2) True nb
      have "expandLoop d b cs (g, q, csv[3 + (i * SIZE + j) := JNum (page r')]) = Inr (g', q', csv')"
        by (simp add: c Let_def)
      from Cons.IH[OF Cons.prems(1) this] show ?thesis .
    qed
  next
    case False
    with Cons.prems(2) have "expandLoop d b cs (g, q, csv) = Inr (g', q', csv')" by (simp add: c)
    from Cons.IH[OF Cons.prems(1) this] show ?thesis .
  qed
qed

lemma processPage_ids:
  assumes "discovered g ks" "processPage d k (g, q) = Inr (g', q')"
  shows "\<exists>news. q' = q @ news \<and> discovered g' (ks @ news) \<and> pageOf g' k = pageOf g k"
proof -
  from assms(2) obtain rcd where rec: "pages g k = Some rcd"
    by (auto simp: processPage_def split: option.splits)
  let ?b = "board rcd"
  from assms(2) rec obtain g1 csv1 where
    r: "(if checkWinner ?b \<noteq> None then Inr (g, q, (csvInit rcd)[1 := JStr ''You lost!''])
         else if countMoves ?b = SIZE * SIZE then Inr (g, q, (csvInit rcd)[2 := JStr ''It's a draw!''])
         else expandLoop d ?b coords (g, q, csvInit rcd)) = Inr (g1, q', csv1)"
    and g': "g' = g1\<lparr>pages := (pages g1)(k \<mapsto> rcd\<lparr>contentCsv := csv1\<rparr>)\<rparr>"
    by (auto simp: processPage_def Let_def split: sum.splits)
  have kept: "pages g1 k = Some rcd"
    using r rec by (auto split: if_splits intro: expandLoop_pages_kept)
  have "\<exists>news. q' = q @ news \<and> discovered g1 (ks @ news)"
  proof (cases "checkWinner ?b \<noteq> None \<or> countMoves ?b = SIZE * SIZE")
    case True
    with r assms(1) show ?thesis by (auto split: if_splits)
  next
    case False
    with r have "expandLoop d ?b coords (g, q, csvInit rcd) = Inr (g1, q', csv1)" by simp
    from expandLoop_ids[OF assms(1) this] show ?thesis .
  qed
  then obtain news where n: "q' = q @ news" "discovered g1 (ks @ news)" by blast
  from discovered_update[OF n(2) kept, of "rcd\<lparr>contentCsv := csv1\<rparr>"]
  have "discovered g' (ks @ news)" unfolding g' by simp
  moreover have "pageOf g' k = pageOf g k" unfolding g' using rec by (simp add: pageOf_def)
  ultimately show ?thesis using n(1) by blast
qed

text \<open>What holds in every state of the loop.\<close>

definition loopInv :: "globals \<times> string list \<Rightarrow> bool" where
  "loopInv s = (goodPages (fst s) \<and> (\<exists>ks. discovered (fst s) ks \<and> suffix (snd s) ks))"

lemma suffix_dom: "discovered g ks \<Longrightarrow> suffix q ks \<Longrightarrow> set q \<subseteq> dom (pages g)"
  by (auto simp: discovered_def dest: set_mono_suffix)

lemma loopInv_step:
  assumes "loopInv (g, k # q)" "9 \<le> d"
  shows "\<exists>g' ks news. processPage d k (g, q) = Inr (g', q @ news) \<and> loopInv (g', q @ news)
     \<and> discovered g ks \<and> suffix (k # q) ks \<and> discovered g' (ks @ news)
     \<and> pageOf g' k = pageOf g k"
proof -
  from assms(1) obtain ks where g: "goodPages g" and ks: "discovered g ks" "suffix (k # q) ks"
    by (auto simp: loopInv_def)
  from suffix_dom[OF ks] have "k \<in> dom (pages g)" "set q \<subseteq> dom (pages g)" by auto
  from processPage_good[OF g this assms(2)] obtain g' q' where
    p: "processPage d k (g, q) = Inr (g', q')" and g': "goodPages g'" by blast
  from processPage_ids[OF ks(1) p] obtain news where
    n: "q' = q @ news" "discovered g' (ks @ news)" "pageOf g' k = pageOf g k" by blast
  from ks(2) have "suffix q ks" by (rule suffix_ConsD)
  then have "suffix (q @ news) (ks @ news)" by (auto simp: suffix_def)
  with g' n(2) have "loopInv (g', q @ news)" by (auto simp: loopInv_def)
  with p n ks show ?thesis by blast
qed

lemma loopState_inv: "loopState d s0 s \<Longrightarrow> loopInv s0 \<Longrightarrow> 9 \<le> d \<Longrightarrow> loopInv s"
proof (induction rule: loopState.induct)
  case loop_start
  then show ?case by simp
next
  case (loop_iter g k q s')
  from loopInv_step[OF loop_iter.IH[OF loop_iter.prems] loop_iter.prems(2)] loop_iter.hyps(2)
  show ?case by auto
qed

lemma loopState_result:
  "loopState d s0 s \<Longrightarrow> generateLoop d s = Inr g' \<Longrightarrow> loopState d s0 (g', [])"
proof (induction d s arbitrary: rule: generateLoop.induct)
  case (1 d g q)
  show ?case
  proof (cases q)
    case Nil
    with "1.prems" show ?thesis by (subst (asm) generateLoop.simps) simp
  next
    case (Cons k rest)
    with "1.prems"(2) obtain s' where p: "processPage d k (g, rest) = Inr s'"
      and r: "generateLoop d s' = Inr g'"
      by (subst (asm) generateLoop.simps) (auto split: sum.splits)
    from "1.prems"(1) p have "loopState d s0 s'" unfolding Cons by (rule loop_iter)
    from "1.IH"[OF Cons p this r] show ?thesis .
  qed
qed

lemma loopInv_start: "loopInv (startState globals0)"
proof -
  have "goodPages (fst (startState globals0))"
    using goodBoard_initialBoard by (auto simp: goodPages_def startState_def globals0_def)
  moreover have "discovered (fst (startState globals0)) [getBoardKey initialBoard]"
    by (simp add: discovered_def startState_def globals0_def pageOf_def)
  ultimately show ?thesis by (auto simp: loopInv_def startState_def)
qed

lemma discovered_ids:
  assumes "discovered g ks"
  shows "pageOf g ` dom (pages g) = {1..length ks}" "inj_on (pageOf g) (dom (pages g))"
    "card (dom (pages g)) = length ks" "map (pageOf g) ks = [1..<Suc (length ks)]"
proof -
  from assms have s: "set ks = dom (pages g)" and di: "distinct ks"
    and m: "map (pageOf g) ks = [1..<currentPage g]" by (simp_all add: discovered_def)
  from discovered_length[OF assms] have l: "currentPage g = Suc (length ks)" by simp
  from m l show m': "map (pageOf g) ks = [1..<Suc (length ks)]" by simp
  have "pageOf g ` set ks = set (map (pageOf g) ks)" by simp
  also have "\<dots> = {1..length ks}" unfolding m' by auto
  finally show "pageOf g ` dom (pages g) = {1..length ks}" by (simp add: s)
  have "distinct (map (pageOf g) ks)" unfolding m' by simp
  then show "inj_on (pageOf g) (dom (pages g))" unfolding s[symmetric] by (simp add: distinct_map)
  from di show "card (dom (pages g)) = length ks" unfolding s[symmetric] by (rule distinct_card)
qed

lemma discovered_new_ids:
  assumes "discovered g ks" "discovered g' (ks @ news)" "k \<in> set ks" "k' \<in> set news"
  shows "pages g k' = None \<and> pageOf g k < currentPage g \<and> currentPage g \<le> pageOf g' k'"
proof -
  from assms(2) have "distinct (ks @ news)" by (simp add: discovered_def)
  with assms(4) have "k' \<notin> set ks" by auto
  with assms(1) have 1: "pages g k' = None" by (auto simp: discovered_def)
  from assms(1) have "map (pageOf g) ks = [1..<currentPage g]" by (simp add: discovered_def)
  then have "set (map (pageOf g) ks) = set [1..<currentPage g]" by simp
  with assms(3) have 2: "pageOf g k < currentPage g" by auto
  from assms(2) have "map (pageOf g') (ks @ news) = [1..<currentPage g']" by (simp add: discovered_def)
  then have "drop (length ks) (map (pageOf g') (ks @ news)) = drop (length ks) [1..<currentPage g']"
    by simp
  then have "map (pageOf g') news = [Suc (length ks)..<currentPage g']"
    by (simp add: drop_map)
  with discovered_length[OF assms(1)] have "set (map (pageOf g') news) = set [currentPage g..<currentPage g']"
    by simp
  with assms(4) have "currentPage g \<le> pageOf g' k'" by auto
  with 1 2 show ?thesis by simp
qed

text \<open>
  Claim C2. One run of \<^verbatim>\<open>generatePaths\<close> from the fresh module state returns a graph of
  \<open>N\<close> pages whose page ids are exactly \<open>1, \<dots>, N\<close>, each used once. Ids follow the order
  of discovery: in every state of the loop the keys found so far, listed in the order they
  were found, carry the ids \<open>1, 2, \<dots>\<close> and the queue is the end of that list (first in,
  first out); the pages found while a page is expanded are new, are put at the end of the
  queue in the order found with the next ids, and the id of the expanded page is smaller
  than (so at most) the id of each of them.
\<close>

theorem page_ids_breadth_first:
  "9 \<le> d \<Longrightarrow>
   (\<exists>g ks. generatePaths d globals0 = Inr g \<and> loopState d (startState globals0) (g, [])
       \<and> distinct ks \<and> set ks = dom (pages g) \<and> card (dom (pages g)) = length ks
       \<and> map (pageOf g) ks = [1..<Suc (length ks)]
       \<and> pageOf g ` dom (pages g) = {1..card (dom (pages g))}
       \<and> inj_on (pageOf g) (dom (pages g)))
   \<and> (\<forall>g k q. loopState d (startState globals0) (g, k # q) \<longrightarrow>
        (\<exists>ks news g'. processPage d k (g, q) = Inr (g', q @ news)
           \<and> discovered g ks \<and> suffix (k # q) ks
           \<and> discovered g' (ks @ news)
           \<and> pageOf g' k = pageOf g k
           \<and> (\<forall>k'\<in>set news. pages g k' = None \<and> pageOf g' k < pageOf g' k')))"
proof (intro conjI allI impI)
  assume d: "9 \<le> d"
  from generatePaths_good[OF goodPages_globals0 d] obtain g where
    r: "generatePaths d globals0 = Inr g" by blast
  then have "generateLoop d (startState globals0) = Inr g" by (simp add: generatePaths_startState)
  from loopState_result[OF loop_start this] have ls: "loopState d (startState globals0) (g, [])" .
  from loopState_inv[OF ls loopInv_start d] obtain ks where ks: "discovered g ks"
    by (auto simp: loopInv_def)
  from ks have "distinct ks" "set ks = dom (pages g)" by (simp_all add: discovered_def)
  with r ls discovered_ids[OF ks]
  show "\<exists>g ks. generatePaths d globals0 = Inr g \<and> loopState d (startState globals0) (g, [])
       \<and> distinct ks \<and> set ks = dom (pages g) \<and> card (dom (pages g)) = length ks
       \<and> map (pageOf g) ks = [1..<Suc (length ks)]
       \<and> pageOf g ` dom (pages g) = {1..card (dom (pages g))}
       \<and> inj_on (pageOf g) (dom (pages g))"
    by (intro exI[of _ g] exI[of _ ks]) simp
next
  fix g k q
  assume d: "9 \<le> d" and ls: "loopState d (startState globals0) (g, k # q)"
  from loopInv_step[OF loopState_inv[OF ls loopInv_start d] d] obtain g' ks news where
    p: "processPage d k (g, q) = Inr (g', q @ news)"
    and ks: "discovered g ks" "suffix (k # q) ks" "discovered g' (ks @ news)"
    and pk: "pageOf g' k = pageOf g k" by blast
  from ks(2) have kin: "k \<in> set ks" by (auto dest: set_mono_suffix)
  have n: "\<forall>k'\<in>set news. pages g k' = None \<and> pageOf g' k < pageOf g' k'"
  proof
    fix k' assume "k' \<in> set news"
    from discovered_new_ids[OF ks(1,3) kin this] pk
    show "pages g k' = None \<and> pageOf g' k < pageOf g' k'" by simp
  qed
  show "\<exists>ks news g'. processPage d k (g, q) = Inr (g', q @ news)
           \<and> discovered g ks \<and> suffix (k # q) ks
           \<and> discovered g' (ks @ news)
           \<and> pageOf g' k = pageOf g k
           \<and> (\<forall>k'\<in>set news. pages g k' = None \<and> pageOf g' k < pageOf g' k')"
    by (intro exI[of _ ks] exI[of _ news] exI[of _ g'] conjI) (fact p ks pk n)+
qed

theorem page_ids_breadth_first_witness:
  "(\<exists>g ks. generatePaths 10 globals0 = Inr g
       \<and> distinct ks \<and> set ks = dom (pages g) \<and> card (dom (pages g)) = length ks
       \<and> map (pageOf g) ks = [1..<Suc (length ks)])
   \<and> (\<exists>ks news g'.
         processPage 10 (getBoardKey initialBoard) (fst (startState globals0), []) = Inr (g', news)
           \<and> discovered (fst (startState globals0)) ks
           \<and> suffix [getBoardKey initialBoard] ks
           \<and> discovered g' (ks @ news)
           \<and> pageOf g' (getBoardKey initialBoard) = 1)"
proof -
  have d: "(9::nat) \<le> 10" by simp
  have s: "startState globals0 = (fst (startState globals0), getBoardKey initialBoard # [])"
    by (simp add: startState_def)
  have ls: "loopState 10 (startState globals0) (fst (startState globals0), getBoardKey initialBoard # [])"
    using loop_start[of 10 "startState globals0"] s by simp
  have p1: "pageOf (fst (startState globals0)) (getBoardKey initialBoard) = 1"
    by (simp add: startState_def pageOf_def globals0_def)
  note t1 = page_ids_breadth_first[OF d, THEN conjunct1]
  note t2 = page_ids_breadth_first[OF d, THEN conjunct2, rule_format, OF ls]
  from t1 obtain g ks where h: "generatePaths 10 globals0 = Inr g \<and> loopState 10 (startState globals0) (g, [])
       \<and> distinct ks \<and> set ks = dom (pages g) \<and> card (dom (pages g)) = length ks
       \<and> map (pageOf g) ks = [1..<Suc (length ks)]
       \<and> pageOf g ` dom (pages g) = {1..card (dom (pages g))}
       \<and> inj_on (pageOf g) (dom (pages g))"
    by (elim exE)
  have a: "\<exists>g ks. generatePaths 10 globals0 = Inr g
       \<and> distinct ks \<and> set ks = dom (pages g) \<and> card (dom (pages g)) = length ks
       \<and> map (pageOf g) ks = [1..<Suc (length ks)]"
    by (intro exI[of _ g] exI[of _ ks]) (simp add: h)
  from t2 obtain ks news g' where h2:
    "processPage 10 (getBoardKey initialBoard) (fst (startState globals0), []) = Inr (g', [] @ news)
     \<and> discovered (fst (startState globals0)) ks \<and> suffix (getBoardKey initialBoard # []) ks
     \<and> discovered g' (ks @ news)
     \<and> pageOf g' (getBoardKey initialBoard) = pageOf (fst (startState globals0)) (getBoardKey initialBoard)
     \<and> (\<forall>k'\<in>set news. pages (fst (startState globals0)) k' = None
            \<and> pageOf g' (getBoardKey initialBoard) < pageOf g' k')"
    by (elim exE)
  have b: "\<exists>ks news g'.
         processPage 10 (getBoardKey initialBoard) (fst (startState globals0), []) = Inr (g', news)
           \<and> discovered (fst (startState globals0)) ks
           \<and> suffix [getBoardKey initialBoard] ks
           \<and> discovered g' (ks @ news)
           \<and> pageOf g' (getBoardKey initialBoard) = 1"
    using h2 p1 by (intro exI[of _ ks] exI[of _ news] exI[of _ g']) simp
  from a b show ?thesis by (rule conjI)
qed

section \<open>Calling generatePaths again\<close>

subsection \<open>The depth bound does not matter\<close>







subsection \<open>Pages that are not in the queue stay as they are\<close>




subsection \<open>The links of a page, read off the graph\<close>

text \<open>
  \<open>expectCsv d g b cs csv\<close> writes into \<open>csv\<close>, for every empty cell of \<open>b\<close> among \<open>cs\<close>,
  the page id that \<open>g\<close> holds for the position reached by the human's move there.
\<close>

definition linkStep :: "nat \<Rightarrow> globals \<Rightarrow> board \<Rightarrow> nat \<times> nat \<Rightarrow> jsval list \<Rightarrow> jsval list" where
  "linkStep d g b c csv =
     (if cellAt b (fst c) (snd c) = Some Empty then
        (case nextBoard d b (fst c) (snd c) of
           Inl e \<Rightarrow> csv
         | Inr nb \<Rightarrow> csv[3 + (fst c * SIZE + snd c) := JNum (pageOf g (getBoardKey nb))])
      else csv)"

definition expectCsv :: "nat \<Rightarrow> globals \<Rightarrow> board \<Rightarrow> (nat \<times> nat) list \<Rightarrow> jsval list \<Rightarrow> jsval list" where
  "expectCsv d g b cs csv = fold (linkStep d g b) cs csv"


lemma expectCsv_Nil [simp]: "expectCsv d g b [] csv = csv"
  by (simp add: expectCsv_def)























section \<open>Placing a mark\<close>











end
